theory Spec2Isabelle
  imports Main "HOL-Library.Sublist" "HOL-Library.Option_ord"
begin

section \<open>POSIX path functions used by the controllers\<close>

text \<open>
  The controllers call Node's \<open>path.resolve\<close>, \<open>path.join\<close> and \<open>path.dirname\<close>
  (POSIX flavour) and compare the resulting strings with \<open>String.startsWith\<close>.
  Paths are strings; the functions below follow Node's algorithm: split at the
  separator, drop empty and \<open>.\<close> segments, let \<open>..\<close> remove the segment before it.
\<close>

fun splitSlash :: "string \<Rightarrow> string list" where
  "splitSlash [] = [[]]"
| "splitSlash (c # cs) =
     (if c = CHR ''/'' then [] # splitSlash cs
      else (case splitSlash cs of [] \<Rightarrow> [[c]] | s # ss \<Rightarrow> (c # s) # ss))"

fun joinSlash :: "string list \<Rightarrow> string" where
  "joinSlash [] = []"
| "joinSlash [s] = s"
| "joinSlash (s # t # ss) = s @ CHR ''/'' # joinSlash (t # ss)"

text \<open>
  \<open>normalizeString allowAboveRoot\<close> on the segments of a path; \<open>acc\<close> is the result
  so far. A \<open>..\<close> removes the last kept segment unless there is none (or it is itself a
  kept \<open>..\<close>); then it is kept for a relative path and dropped for an absolute one.
\<close>

fun normalizeString :: "bool \<Rightarrow> string list \<Rightarrow> string list \<Rightarrow> string list" where
  "normalizeString allow acc [] = acc"
| "normalizeString allow acc (s # ss) =
     (if s = [] \<or> s = ''.'' then normalizeString allow acc ss
      else if s = ''..'' then
        (if acc \<noteq> [] \<and> last acc \<noteq> ''..'' then normalizeString allow (butlast acc) ss
         else if allow then normalizeString allow (acc @ [''..'']) ss
         else normalizeString allow acc ss)
      else normalizeString allow (acc @ [s]) ss)"

definition isAbsolute :: "string \<Rightarrow> bool" where
  "isAbsolute p = (p \<noteq> [] \<and> hd p = CHR ''/'')"

definition posix_normalize :: "string \<Rightarrow> string" where
  "posix_normalize p =
     (if p = [] then ''.''
      else let abs = isAbsolute p;
               trailing = (last p = CHR ''/'');
               q = joinSlash (normalizeString (\<not> abs) [] (splitSlash p))
           in if q = [] then (if abs then ''/'' else if trailing then ''./'' else ''.'')
              else (if abs then ''/'' else []) @ q @ (if trailing then ''/'' else []))"

definition path_join :: "string list \<Rightarrow> string" where
  "path_join args =
     (let parts = filter (\<lambda>a. a \<noteq> []) args
      in if parts = [] then ''.'' else posix_normalize (joinSlash parts))"

text \<open>
  \<open>path.resolve\<close> walks its arguments from the right until the path built so far is
  absolute, falling back on the working directory of the process.
\<close>

fun resolveLoop :: "string list \<Rightarrow> string \<Rightarrow> string option" where
  "resolveLoop [] acc = None"
| "resolveLoop (a # as) acc =
     (if a = [] then resolveLoop as acc
      else if hd a = CHR ''/'' then Some (a @ CHR ''/'' # acc)
      else resolveLoop as (a @ CHR ''/'' # acc))"

fun resolveRel :: "string list \<Rightarrow> string \<Rightarrow> string" where
  "resolveRel [] acc = acc"
| "resolveRel (a # as) acc =
     (if a = [] then resolveRel as acc else resolveRel as (a @ CHR ''/'' # acc))"

definition path_resolve :: "string \<Rightarrow> string list \<Rightarrow> string" where
  "path_resolve cwd args =
     (case resolveLoop (rev (cwd # args)) [] of
        Some p \<Rightarrow> CHR ''/'' # joinSlash (normalizeString False [] (splitSlash p))
      | None \<Rightarrow>
          (let q = joinSlash (normalizeString True [] (splitSlash (resolveRel (rev (cwd # args)) [])))
           in if q = [] then ''.'' else q))"

definition startsWith :: "string \<Rightarrow> string \<Rightarrow> bool" where
  "startsWith s p = prefix p s"

text \<open>\<open>String.prototype.replace(/^\<bslash>//, '')\<close>: one leading slash is removed.\<close>

definition stripLeadingSlash :: "string \<Rightarrow> string" where
  "stripLeadingSlash s = (case s of [] \<Rightarrow> [] | c # cs \<Rightarrow> if c = CHR ''/'' then cs else s)"

definition BASE_PROJECT_DIR :: "string \<Rightarrow> string" where
  "BASE_PROJECT_DIR cwd = path_resolve cwd [cwd, ''projects'']"

section \<open>Errors\<close>

datatype error =
    UserIdRequired
  | ProjectSlugRequired
  | AccessDenied string
  | ProjectNotFound string
  | FsError string

section \<open>Path resolution of the workspace file API\<close>

text \<open>
  \<open>resolveUserProjectPath\<close>: an empty user id or slug is falsy and raises; the check
  on the resolved path is the string test of the source.
\<close>

definition resolveUserProjectPath :: "string \<Rightarrow> string \<Rightarrow> string \<Rightarrow> string \<Rightarrow> error + string" where
  "resolveUserProjectPath cwd userId projectSlug relativePathWithinProject =
     (if userId = [] then Inl UserIdRequired
      else if projectSlug = [] then Inl ProjectSlugRequired
      else let specificProjectRootOnHost = path_resolve cwd [BASE_PROJECT_DIR cwd, userId, projectSlug];
               cleanRelativePath = stripLeadingSlash relativePathWithinProject;
               fullHostPath = path_resolve cwd [specificProjectRootOnHost, cleanRelativePath]
           in if \<not> startsWith fullHostPath specificProjectRootOnHost
                 \<and> fullHostPath \<noteq> specificProjectRootOnHost
              then Inl (AccessDenied fullHostPath)
              else Inr fullHostPath)"

text \<open>
  A path is inside a directory when it is the directory or lies below it, segment by
  segment.
\<close>

definition insideDir :: "string \<Rightarrow> string \<Rightarrow> bool" where
  "insideDir root p =
     prefix (normalizeString False [] (splitSlash root)) (normalizeString False [] (splitSlash p))"

section \<open>The virtual file system store\<close>

text \<open>
  One document of the \<open>File\<close> collection (\<open>fileModel.js\<close>). User ids are the strings
  the controllers compare; node ids are numbers; times are milliseconds.
\<close>

datatype kind = File | Folder

datatype perm = Read | Write

record sharedUser =
  su_user :: string
  su_permission :: perm

record doc =
  d_id :: nat
  d_userId :: string
  d_name :: string
  d_type :: kind
  d_content :: string
  d_parentId :: "nat option"
  d_isTemplate :: bool
  d_sharedWith :: "sharedUser list"
  d_updatedAt :: nat

type_synonym db = "doc list"

definition findById :: "db \<Rightarrow> nat \<Rightarrow> doc option" where
  "findById docs i = find (\<lambda>d. d_id d = i) docs"

text \<open>Saving a loaded document writes it back under its \<open>_id\<close>.\<close>

fun saveDoc :: "doc \<Rightarrow> db \<Rightarrow> db" where
  "saveDoc x [] = []"
| "saveDoc x (d # ds) = (if d_id d = d_id x then x # ds else d # saveDoc x ds)"

section \<open>Permission check\<close>

definition findProjectRoot :: "db \<Rightarrow> string \<Rightarrow> string \<Rightarrow> doc option" where
  "findProjectRoot docs projectOwnerId projectSlug =
     find (\<lambda>d. d_userId d = projectOwnerId \<and> d_name d = projectSlug \<and> d_parentId d = None
               \<and> d_type d = Folder \<and> \<not> d_isTemplate d) docs"

definition findShareEntry :: "doc \<Rightarrow> string \<Rightarrow> sharedUser option" where
  "findShareEntry root loggedInUserId = find (\<lambda>s. su_user s = loggedInUserId) (d_sharedWith root)"

text \<open>
  \<open>checkProjectPermission\<close> (\<open>authUtils.js\<close>). An empty id or slug is falsy: the
  first guard answers false before anything is compared.
\<close>

definition checkProjectPermission :: "db \<Rightarrow> string \<Rightarrow> string \<Rightarrow> string \<Rightarrow> perm \<Rightarrow> error + bool" where
  "checkProjectPermission docs loggedInUserId projectOwnerId projectSlug requiredPermission =
     (if loggedInUserId = [] \<or> projectOwnerId = [] \<or> projectSlug = [] then Inr False
      else if loggedInUserId = projectOwnerId then Inr True
      else (case findProjectRoot docs projectOwnerId projectSlug of
              None \<Rightarrow> Inl (ProjectNotFound projectSlug)
            | Some projectRootVfs \<Rightarrow>
                (case findShareEntry projectRootVfs loggedInUserId of
                   None \<Rightarrow> Inr False
                 | Some shareEntry \<Rightarrow>
                     if requiredPermission = Read
                        \<and> (su_permission shareEntry = Read \<or> su_permission shareEntry = Write)
                     then Inr True
                     else if requiredPermission = Write \<and> su_permission shareEntry = Write
                     then Inr True
                     else Inr False)))"

section \<open>HTTP responses\<close>

datatype payload = Message string | FileJson doc | ContentJson string

datatype response = Response (status: nat) (body: payload)

section \<open>File update of the VFS API\<close>

text \<open>\<open>a || b\<close> on an optional string: an absent or empty \<open>a\<close> is falsy.\<close>

definition jsOr :: "string option \<Rightarrow> string \<Rightarrow> string" where
  "jsOr a b = (case a of None \<Rightarrow> b | Some s \<Rightarrow> if s = [] then b else s)"

text \<open>
  \<open>updateFile\<close> (\<open>fileController.js\<close>): \<open>reqUserId\<close> is \<open>req.user.id\<close>, \<open>fileId\<close> is
  \<open>req.params.id\<close>, \<open>name\<close> and \<open>content\<close> are the fields of the request body.
  The schema has \<open>timestamps\<close>: a save that modifies the document stamps \<open>updatedAt\<close>.
\<close>

definition updateFile ::
  "nat \<Rightarrow> db \<Rightarrow> string \<Rightarrow> nat \<Rightarrow> string option \<Rightarrow> string option \<Rightarrow> response \<times> db" where
  "updateFile now docs reqUserId fileId name content =
     (case findById docs fileId of
        None \<Rightarrow> (Response 404 (Message ''File not found''), docs)
      | Some file \<Rightarrow>
          if d_userId file \<noteq> reqUserId then (Response 401 (Message ''Not authorized''), docs)
          else let file1 = file\<lparr>d_name := jsOr name (d_name file),
                                 d_content := jsOr content (d_content file)\<rparr>;
                   updatedFile = (if file1 = file then file else file1\<lparr>d_updatedAt := now\<rparr>)
               in (Response 200 (FileJson updatedFile), saveDoc updatedFile docs))"

section \<open>The host file system\<close>

text \<open>
  The host working copies live in a directory tree. An entry is addressed by the
  segments of its absolute path; the root directory always exists. Permission bits are
  not tracked: \<open>chmod\<close> only needs its target to exist.
\<close>

datatype fsnode = FsDir | FsFile string

type_synonym hostfs = "string list \<Rightarrow> fsnode option"

definition segs :: "string \<Rightarrow> string list" where
  "segs p = normalizeString False [] (splitSlash p)"

definition fsLookup :: "hostfs \<Rightarrow> string list \<Rightarrow> fsnode option" where
  "fsLookup fs q = (if q = [] then Some FsDir else fs q)"

definition existsSync :: "hostfs \<Rightarrow> string \<Rightarrow> bool" where
  "existsSync fs p = (fsLookup fs (segs p) \<noteq> None)"

definition isDirectory :: "hostfs \<Rightarrow> string \<Rightarrow> bool" where
  "isDirectory fs p = (fsLookup fs (segs p) = Some FsDir)"

text \<open>\<open>mkdir\<close> with \<open>recursive: true\<close>: missing ancestors are created, a file in the way fails.\<close>

fun mkdirp :: "hostfs \<Rightarrow> string list \<Rightarrow> string list \<Rightarrow> error + hostfs" where
  "mkdirp fs pre [] = Inr fs"
| "mkdirp fs pre (s # ss) =
     (case fsLookup fs (pre @ [s]) of
        Some (FsFile c) \<Rightarrow> Inl (FsError (if ss = [] then ''EEXIST'' else ''ENOTDIR''))
      | Some FsDir \<Rightarrow> mkdirp fs (pre @ [s]) ss
      | None \<Rightarrow> mkdirp (fs(pre @ [s] \<mapsto> FsDir)) (pre @ [s]) ss)"

definition mkdirRecursive :: "hostfs \<Rightarrow> string \<Rightarrow> error + hostfs" where
  "mkdirRecursive fs p = mkdirp fs [] (segs p)"

definition chmod :: "hostfs \<Rightarrow> string \<Rightarrow> error + hostfs" where
  "chmod fs p = (if existsSync fs p then Inr fs else Inl (FsError ''ENOENT''))"

definition writeFile :: "hostfs \<Rightarrow> string \<Rightarrow> string \<Rightarrow> error + hostfs" where
  "writeFile fs p c =
     (let q = segs p in
      if q = [] then Inl (FsError ''EISDIR'')
      else (case fsLookup fs (butlast q) of
              None \<Rightarrow> Inl (FsError ''ENOENT'')
            | Some (FsFile x) \<Rightarrow> Inl (FsError ''ENOTDIR'')
            | Some FsDir \<Rightarrow>
                (case fsLookup fs q of
                   Some FsDir \<Rightarrow> Inl (FsError ''EISDIR'')
                 | _ \<Rightarrow> Inr (fs(q \<mapsto> FsFile c)))))"

definition readFile :: "hostfs \<Rightarrow> string \<Rightarrow> error + string" where
  "readFile fs p =
     (case fsLookup fs (segs p) of
        None \<Rightarrow> Inl (FsError ''ENOENT'')
      | Some FsDir \<Rightarrow> Inl (FsError ''EISDIR'')
      | Some (FsFile c) \<Rightarrow> Inr c)"

text \<open>\<open>rm\<close> with \<open>recursive: true, force: true\<close>: the entry and all below it go.\<close>

definition rmRecursive :: "hostfs \<Rightarrow> string \<Rightarrow> hostfs" where
  "rmRecursive fs p = (\<lambda>q. if prefix (segs p) q then None else fs q)"

section \<open>The workspace file API\<close>

text \<open>
  The handlers of the workspace file controller. \<open>loggedInUserId\<close> is the authenticated
  user; \<open>projectOwnerId\<close>, \<open>projectSlug\<close> and \<open>relativePathInProject\<close> are the query
  parameters, an absent one being the empty string (both are falsy). Each handler returns
  its response and the host file system it leaves.
\<close>

definition catchResponse :: "string \<Rightarrow> error \<Rightarrow> response" where
  "catchResponse failMessage e =
     (case e of AccessDenied p \<Rightarrow> Response 403 (Message ''Access Denied: Path traversal attempt.'')
              | _ \<Rightarrow> Response 500 (Message failMessage))"

definition readFileContent ::
  "string \<Rightarrow> db \<Rightarrow> hostfs \<Rightarrow> string \<Rightarrow> string \<Rightarrow> string \<Rightarrow> string \<Rightarrow> response \<times> hostfs" where
  "readFileContent cwd docs fs loggedInUserId projectOwnerId projectSlug relativePathInProject =
     (if projectOwnerId = [] \<or> projectSlug = [] \<or> relativePathInProject = []
      then (Response 400 (Message ''userId (owner), projectSlug, and path query parameters are required.''), fs)
      else (case checkProjectPermission docs loggedInUserId projectOwnerId projectSlug Read of
              Inl e \<Rightarrow> (catchResponse ''Failed to read file.'' e, fs)
            | Inr False \<Rightarrow> (Response 403 (Message ''Forbidden: You don't have permission to read this file.''), fs)
            | Inr True \<Rightarrow>
               (case resolveUserProjectPath cwd projectOwnerId projectSlug relativePathInProject of
                  Inl e \<Rightarrow> (catchResponse ''Failed to read file.'' e, fs)
                | Inr fullHostPath \<Rightarrow>
                    if \<not> existsSync fs fullHostPath \<or> isDirectory fs fullHostPath
                    then (Response 404 (Message ''File not found or is a directory.''), fs)
                    else (case readFile fs fullHostPath of
                            Inl e \<Rightarrow> (catchResponse ''Failed to read file.'' e, fs)
                          | Inr content \<Rightarrow> (Response 200 (ContentJson content), fs)))))"

text \<open>\<open>path.dirname\<close>: the path up to the last separator that follows a name.\<close>

definition path_dirname :: "string \<Rightarrow> string" where
  "path_dirname p =
     (if p = [] then ''.''
      else let hasRoot = (hd p = CHR ''/'');
               r = dropWhile (\<lambda>c. c \<noteq> CHR ''/'')
                     (dropWhile (\<lambda>c. c = CHR ''/'') (rev (tl p)))
           in if r = [] then (if hasRoot then ''/'' else ''.'')
              else if hasRoot \<and> length r = 1 then ''//''
              else take (length r) p)"

definition writeFileContent ::
  "string \<Rightarrow> db \<Rightarrow> hostfs \<Rightarrow> string \<Rightarrow> string \<Rightarrow> string \<Rightarrow> string \<Rightarrow> string option
     \<Rightarrow> response \<times> hostfs" where
  "writeFileContent cwd docs fs loggedInUserId projectOwnerId projectSlug relativePathInProject content =
     (if projectOwnerId = [] \<or> projectSlug = [] \<or> relativePathInProject = [] \<or> content = None
      then (Response 400 (Message ''userId (owner), projectSlug, path, and content are required.''), fs)
      else (case checkProjectPermission docs loggedInUserId projectOwnerId projectSlug Write of
              Inl e \<Rightarrow> (catchResponse ''Failed to write file.'' e, fs)
            | Inr False \<Rightarrow> (Response 403 (Message ''Forbidden: You don't have permission to write to this file.''), fs)
            | Inr True \<Rightarrow>
               (case resolveUserProjectPath cwd projectOwnerId projectSlug relativePathInProject of
                  Inl e \<Rightarrow> (catchResponse ''Failed to write file.'' e, fs)
                | Inr fullHostPath \<Rightarrow>
                    (let dirPath = path_dirname fullHostPath;
                         made = (if \<not> existsSync fs dirPath
                                 then (case mkdirRecursive fs dirPath of
                                         Inl e \<Rightarrow> Inl e | Inr fs1 \<Rightarrow> chmod fs1 dirPath)
                                 else Inr fs)
                     in case made of
                          Inl e \<Rightarrow> (catchResponse ''Failed to write file.'' e, fs)
                        | Inr fs1 \<Rightarrow>
                            (case writeFile fs1 fullHostPath (the content) of
                               Inl e \<Rightarrow> (catchResponse ''Failed to write file.'' e, fs1)
                             | Inr fs2 \<Rightarrow>
                                 (case chmod fs2 fullHostPath of
                                    Inl e \<Rightarrow> (catchResponse ''Failed to write file.'' e, fs2)
                                  | Inr fs3 \<Rightarrow> (Response 200 (Message ''File saved successfully.''), fs3)))))))"

definition createDirectory ::
  "string \<Rightarrow> db \<Rightarrow> hostfs \<Rightarrow> string \<Rightarrow> string \<Rightarrow> string \<Rightarrow> string \<Rightarrow> response \<times> hostfs" where
  "createDirectory cwd docs fs loggedInUserId projectOwnerId projectSlug relativePathInProject =
     (if projectOwnerId = [] \<or> projectSlug = [] \<or> relativePathInProject = []
      then (Response 400 (Message ''Owner userId, projectSlug, and path are required.''), fs)
      else (case checkProjectPermission docs loggedInUserId projectOwnerId projectSlug Write of
              Inl e \<Rightarrow> (catchResponse ''Failed to create directory.'' e, fs)
            | Inr False \<Rightarrow> (Response 403 (Message ''Forbidden: You don't have permission to create directories in this project.''), fs)
            | Inr True \<Rightarrow>
               (case resolveUserProjectPath cwd projectOwnerId projectSlug relativePathInProject of
                  Inl e \<Rightarrow> (catchResponse ''Failed to create directory.'' e, fs)
                | Inr fullHostPath \<Rightarrow>
                    if existsSync fs fullHostPath
                    then (Response 400 (Message ''Directory or file already exists.''), fs)
                    else (case mkdirRecursive fs fullHostPath of
                            Inl e \<Rightarrow> (catchResponse ''Failed to create directory.'' e, fs)
                          | Inr fs1 \<Rightarrow>
                              (case chmod fs1 fullHostPath of
                                 Inl e \<Rightarrow> (catchResponse ''Failed to create directory.'' e, fs1)
                               | Inr fs2 \<Rightarrow> (Response 201 (Message ''Directory created successfully.''), fs2))))))"

definition deleteItem ::
  "string \<Rightarrow> db \<Rightarrow> hostfs \<Rightarrow> string \<Rightarrow> string \<Rightarrow> string \<Rightarrow> string \<Rightarrow> response \<times> hostfs" where
  "deleteItem cwd docs fs loggedInUserId projectOwnerId projectSlug relativePathInProject =
     (if projectOwnerId = [] \<or> projectSlug = [] \<or> relativePathInProject = []
      then (Response 400 (Message ''userId (owner), projectSlug, and path query parameters are required.''), fs)
      else (case checkProjectPermission docs loggedInUserId projectOwnerId projectSlug Read of
              Inl e \<Rightarrow> (catchResponse ''Failed to delete item.'' e, fs)
            | Inr False \<Rightarrow> (Response 403 (Message ''Forbidden: You don't have permission to read this file.''), fs)
            | Inr True \<Rightarrow>
               (case resolveUserProjectPath cwd projectOwnerId projectSlug relativePathInProject of
                  Inl e \<Rightarrow> (catchResponse ''Failed to delete item.'' e, fs)
                | Inr fullHostPath \<Rightarrow>
                    if \<not> existsSync fs fullHostPath then (Response 404 (Message ''Item not found.''), fs)
                    else let specificProjectRootOnHost =
                               path_resolve cwd [BASE_PROJECT_DIR cwd, projectOwnerId, projectSlug]
                         in if fullHostPath = specificProjectRootOnHost
                               \<and> (relativePathInProject = ''/'' \<or> relativePathInProject = [])
                            then (Response 400 (Message ''Cannot delete project root via this item endpoint.''), fs)
                            else (Response 200 (Message ''Item deleted successfully.''),
                                  rmRecursive fs fullHostPath))))"

section \<open>Example data\<close>

text \<open>
  Owner \<open>u1\<close> has the project \<open>demo\<close>, shared with \<open>u2\<close> for reading, and a second
  project \<open>demo2\<close> that is not shared. The server runs in \<open>/srv/app\<close>.
\<close>

definition demoRoot :: doc where
  "demoRoot = \<lparr>d_id = 1, d_userId = ''u1'', d_name = ''demo'', d_type = Folder, d_content = [],
                d_parentId = None, d_isTemplate = False,
                d_sharedWith = [\<lparr>su_user = ''u2'', su_permission = Read\<rparr>], d_updatedAt = 0\<rparr>"

definition demoFile :: doc where
  "demoFile = \<lparr>d_id = 2, d_userId = ''u1'', d_name = ''app.js'', d_type = File,
                d_content = ''console.log(1)'', d_parentId = Some 1, d_isTemplate = False,
                d_sharedWith = [], d_updatedAt = 0\<rparr>"

definition demoDocs :: db where
  "demoDocs = [demoRoot, demoFile]"

definition demoFs :: hostfs where
  "demoFs = [[''srv''] \<mapsto> FsDir, [''srv'', ''app''] \<mapsto> FsDir,
             [''srv'', ''app'', ''projects''] \<mapsto> FsDir,
             [''srv'', ''app'', ''projects'', ''u1''] \<mapsto> FsDir,
             [''srv'', ''app'', ''projects'', ''u1'', ''demo''] \<mapsto> FsDir,
             [''srv'', ''app'', ''projects'', ''u1'', ''demo'', ''app.js''] \<mapsto> FsFile ''console.log(1)'',
             [''srv'', ''app'', ''projects'', ''u1'', ''demo2''] \<mapsto> FsDir,
             [''srv'', ''app'', ''projects'', ''u1'', ''demo2'', ''secret.txt''] \<mapsto> FsFile ''s3cret'']"

section \<open>Pull: from the VFS to the host\<close>

text \<open>
  \<open>getVfsDescendants\<close> reads the nodes of a user below a parent (\<open>None\<close> is the
  user's top level) and nests the children of each folder. The recursion follows the
  parent links of the store, which nothing bounds; \<open>fuel\<close> bounds its depth and the
  result is \<open>None\<close> when the fuel runs out.
\<close>

datatype vfsItem =
  VfsItem (vi_name: string) (vi_type: kind) (vi_id: nat) (vi_content: string) (vi_children: "vfsItem list")

fun getVfsDescendants :: "nat \<Rightarrow> db \<Rightarrow> string \<Rightarrow> nat option \<Rightarrow> vfsItem list option" where
  "getVfsDescendants 0 docs userId parentId = None"
| "getVfsDescendants (Suc fuel) docs userId parentId =
     those (map (\<lambda>item.
               if d_type item = Folder
               then map_option (VfsItem (d_name item) (d_type item) (d_id item) [])
                      (getVfsDescendants fuel docs userId (Some (d_id item)))
               else Some (VfsItem (d_name item) (d_type item) (d_id item) (d_content item) []))
            (filter (\<lambda>d. d_userId d = userId \<and> d_parentId d = parentId) docs))"

definition mkdirChmod :: "hostfs \<Rightarrow> string \<Rightarrow> error + hostfs" where
  "mkdirChmod fs p = (case mkdirRecursive fs p of Inl e \<Rightarrow> Inl e | Inr fs1 \<Rightarrow> chmod fs1 p)"

definition writeChmod :: "hostfs \<Rightarrow> string \<Rightarrow> string \<Rightarrow> error + hostfs" where
  "writeChmod fs p c = (case writeFile fs p c of Inl e \<Rightarrow> Inl e | Inr fs1 \<Rightarrow> chmod fs1 p)"

text \<open>
  \<open>createHostFilesRecursive\<close>: an entry whose host path does not start with the base is
  skipped; a folder is created when missing and its children follow; a file is written.
  A failing file-system call ends the walk with its error.
\<close>

fun createHostFilesRecursive :: "vfsItem list \<Rightarrow> string \<Rightarrow> string \<Rightarrow> hostfs \<Rightarrow> error + hostfs" where
  "createHostFilesRecursive [] currentHostPath base fs = Inr fs"
| "createHostFilesRecursive (VfsItem name type i content children # items) currentHostPath base fs =
     (let itemHostPath = path_join [currentHostPath, name] in
      if \<not> startsWith itemHostPath base
      then createHostFilesRecursive items currentHostPath base fs
      else if type = Folder then
        (case (if \<not> existsSync fs itemHostPath then mkdirChmod fs itemHostPath else Inr fs) of
           Inl e \<Rightarrow> Inl e
         | Inr fs1 \<Rightarrow>
             (case (if children \<noteq> [] then createHostFilesRecursive children itemHostPath base fs1
                    else Inr fs1) of
                Inl e \<Rightarrow> Inl e
              | Inr fs2 \<Rightarrow> createHostFilesRecursive items currentHostPath base fs2))
      else
        (case writeChmod fs itemHostPath content of
           Inl e \<Rightarrow> Inl e
         | Inr fs1 \<Rightarrow> createHostFilesRecursive items currentHostPath base fs1))"

text \<open>
  \<open>syncProjectFromVfsToHost\<close>; the root id is \<open>None\<close> for the user's top level. The
  outer \<open>option\<close> is \<open>None\<close> when reading the store does not end.
\<close>

definition syncProjectFromVfsToHost ::
  "nat \<Rightarrow> db \<Rightarrow> string \<Rightarrow> nat option \<Rightarrow> string \<Rightarrow> hostfs \<Rightarrow> (error + hostfs) option" where
  "syncProjectFromVfsToHost fuel docs userId vfsProjectRootFolderId projectRootHostPath fs =
     (case (if \<not> existsSync fs projectRootHostPath then mkdirChmod fs projectRootHostPath else Inr fs) of
        Inl e \<Rightarrow> Some (Inl e)
      | Inr fs1 \<Rightarrow>
          (case getVfsDescendants fuel docs userId vfsProjectRootFolderId of
             None \<Rightarrow> None
           | Some vfsStructure \<Rightarrow>
               Some (createHostFilesRecursive vfsStructure projectRootHostPath projectRootHostPath fs1)))"

text \<open>The host paths (as segments) and contents of the file nodes of a fetched structure.\<close>

fun fileEntries :: "vfsItem list \<Rightarrow> string \<Rightarrow> (string list \<times> string) list" where
  "fileEntries [] currentHostPath = []"
| "fileEntries (VfsItem name type i content children # items) currentHostPath =
     (if type = Folder then fileEntries children (path_join [currentHostPath, name])
      else [(segs (path_join [currentHostPath, name]), content)])
     @ fileEntries items currentHostPath"

text \<open>
  A plain name is a single path segment. A fetched structure is well-formed when every
  name is plain and the names of siblings differ; a path is normalized when it is
  absolute and \<open>path.resolve\<close> would return it unchanged.
\<close>

definition plainName :: "string \<Rightarrow> bool" where
  "plainName n = (n \<noteq> [] \<and> n \<noteq> ''.'' \<and> n \<noteq> ''..'' \<and> CHR ''/'' \<notin> set n)"

fun wfItems :: "vfsItem list \<Rightarrow> bool" where
  "wfItems [] = True"
| "wfItems (VfsItem name type i content children # items) =
     (plainName name \<and> name \<notin> vi_name ` set items \<and> wfItems children \<and> wfItems items)"

definition normalizedAbs :: "string \<Rightarrow> bool" where
  "normalizedAbs p = (p = CHR ''/'' # joinSlash (segs p))"

definition pullFileEntries ::
  "nat \<Rightarrow> db \<Rightarrow> string \<Rightarrow> nat option \<Rightarrow> string \<Rightarrow> (string list \<times> string) list" where
  "pullFileEntries fuel docs userId vfsProjectRootFolderId projectRootHostPath =
     (case getVfsDescendants fuel docs userId vfsProjectRootFolderId of
        None \<Rightarrow> []
      | Some vfsStructure \<Rightarrow> fileEntries vfsStructure projectRootHostPath)"

text \<open>
  A store in which two file nodes of the same folder carry the same name, and a host
  directory that holds an untracked build log beside the project file.
\<close>

definition dupDocs :: db where
  "dupDocs = [demoRoot,
     \<lparr>d_id = 2, d_userId = ''u1'', d_name = ''a.txt'', d_type = File, d_content = ''one'',
      d_parentId = Some 1, d_isTemplate = False, d_sharedWith = [], d_updatedAt = 0\<rparr>,
     \<lparr>d_id = 3, d_userId = ''u1'', d_name = ''a.txt'', d_type = File, d_content = ''two'',
      d_parentId = Some 1, d_isTemplate = False, d_sharedWith = [], d_updatedAt = 0\<rparr>]"

text \<open>
  A store in which a file node of the project \<open>demo\<close> carries a name that leads into the
  sibling directory \<open>demo2\<close> (\<open>createFile\<close> takes any name).
\<close>

definition escDocs :: db where
  "escDocs = [demoRoot,
     \<lparr>d_id = 2, d_userId = ''u1'', d_name = ''../demo2/secret.txt'', d_type = File,
      d_content = ''overwritten'', d_parentId = Some 1, d_isTemplate = False, d_sharedWith = [],
      d_updatedAt = 0\<rparr>]"

definition buildFs :: hostfs where
  "buildFs = [[''srv''] \<mapsto> FsDir, [''srv'', ''app''] \<mapsto> FsDir,
             [''srv'', ''app'', ''projects''] \<mapsto> FsDir,
             [''srv'', ''app'', ''projects'', ''u1''] \<mapsto> FsDir,
             [''srv'', ''app'', ''projects'', ''u1'', ''demo''] \<mapsto> FsDir,
             [''srv'', ''app'', ''projects'', ''u1'', ''demo'', ''app.js''] \<mapsto> FsFile ''old'',
             [''srv'', ''app'', ''projects'', ''u1'', ''demo'', ''build.log''] \<mapsto> FsFile ''ok'']"

section \<open>Container sessions\<close>








datatype sessionError =
    CreateFailed string
  | ExecError string
  | PtyError string
























section \<open>Push: from the host to the VFS\<close>

text \<open>
  What push reads of the host: the entries of a directory with their kinds, as
  \<open>readdir\<close> with \<open>withFileTypes\<close> lists them, and the text of each file. An entry that
  is neither a directory nor a regular file is \<open>HOther\<close>. Reading the host is taken to
  succeed.
\<close>

datatype hostEntry = HFile string | HDir "(string \<times> hostEntry) list" | HOther

text \<open>
  The store as push changes it: the documents, the next fresh \<open>_id\<close>, and the number of
  clock readings so far. \<open>new Date()\<close> reads a clock \<open>clk\<close>, a function from the number
  of earlier readings to milliseconds.
\<close>

record vfs =
  v_docs :: db
  v_nextId :: nat
  v_tick :: nat

definition newDate :: "(nat \<Rightarrow> nat) \<Rightarrow> vfs \<Rightarrow> nat \<times> vfs" where
  "newDate clk s = (clk (v_tick s), s\<lparr>v_tick := Suc (v_tick s)\<rparr>)"

definition findOne :: "db \<Rightarrow> string \<Rightarrow> string \<Rightarrow> nat option \<Rightarrow> doc option" where
  "findOne docs userId name parentId =
     find (\<lambda>d. d_userId d = userId \<and> d_name d = name \<and> d_parentId d = parentId) docs"

fun deleteOne :: "nat \<Rightarrow> db \<Rightarrow> db" where
  "deleteOne i [] = []"
| "deleteOne i (d # ds) = (if d_id d = i then ds else d # deleteOne i ds)"

text \<open>
  The schema has the option \<open>timestamps\<close> (\<open>fileModel.js\<close>): \<open>save()\<close> reads the clock
  and, when the document is new or a field was given a value other than the stored one,
  stamps \<open>updatedAt\<close> with that reading, whatever the code assigned to it before; a
  loaded document with no such field is not written. \<open>modified\<close> says whether a field
  was given another value.
\<close>

definition save :: "(nat \<Rightarrow> nat) \<Rightarrow> bool \<Rightarrow> doc \<Rightarrow> vfs \<Rightarrow> vfs" where
  "save clk modified d s =
     (let (stamp, s1) = newDate clk s
      in if modified then s1\<lparr>v_docs := saveDoc (d\<lparr>d_updatedAt := stamp\<rparr>) (v_docs s1)\<rparr>
         else s1)"

text \<open>
  \<open>new File({..., updatedAt: new Date()})\<close> followed by \<open>save()\<close>: the document gets a
  fresh \<open>_id\<close> and the time of the save.
\<close>

definition createNode ::
  "(nat \<Rightarrow> nat) \<Rightarrow> string \<Rightarrow> string \<Rightarrow> kind \<Rightarrow> string \<Rightarrow> nat option \<Rightarrow> vfs \<Rightarrow> doc \<times> vfs" where
  "createNode clk userId name type content parentId s =
     (let (now, s1) = newDate clk s;
          (stamp, s2) = newDate clk s1;
          vfsItem = \<lparr>d_id = v_nextId s2, d_userId = userId, d_name = name, d_type = type,
                     d_content = content, d_parentId = parentId, d_isTemplate = False,
                     d_sharedWith = [], d_updatedAt = stamp\<rparr>
      in (vfsItem, s2\<lparr>v_docs := v_docs s2 @ [vfsItem], v_nextId := Suc (v_nextId s2)\<rparr>))"

text \<open>A node of the wrong kind under the entry's name is deleted by its \<open>_id\<close>.\<close>

definition dropWrongKind :: "kind \<Rightarrow> doc option \<Rightarrow> vfs \<Rightarrow> doc option \<times> vfs" where
  "dropWrongKind expectedType vfsItem s =
     (case vfsItem of
        Some d \<Rightarrow> if d_type d \<noteq> expectedType
                  then (None, s\<lparr>v_docs := deleteOne (d_id d) (v_docs s)\<rparr>)
                  else (Some d, s)
      | None \<Rightarrow> (None, s))"

definition ensureFolder ::
  "(nat \<Rightarrow> nat) \<Rightarrow> string \<Rightarrow> string \<Rightarrow> nat option \<Rightarrow> vfs \<Rightarrow> doc \<times> vfs" where
  "ensureFolder clk userId name vfsParentId s =
     (case dropWrongKind Folder (findOne (v_docs s) userId name vfsParentId) s of
        (Some d, s1) \<Rightarrow> (d, s1)
      | (None, s1) \<Rightarrow> createNode clk userId name Folder [] vfsParentId s1)"

definition uploadFile ::
  "(nat \<Rightarrow> nat) \<Rightarrow> string \<Rightarrow> string \<Rightarrow> nat option \<Rightarrow> string \<Rightarrow> vfs \<Rightarrow> vfs" where
  "uploadFile clk userId name vfsParentId content s =
     (case dropWrongKind File (findOne (v_docs s) userId name vfsParentId) s of
        (Some d, s1) \<Rightarrow>
          if d_content d \<noteq> content then
            (let (now, s2) = newDate clk s1
             in save clk True (d\<lparr>d_content := content, d_updatedAt := now\<rparr>) s2)
          else
            (let (now, s2) = newDate clk s1 in
             if now - d_updatedAt d > 1000 then
               (let (now2, s3) = newDate clk s2
                in save clk (now2 \<noteq> d_updatedAt d) (d\<lparr>d_updatedAt := now2\<rparr>) s3)
             else s2)
      | (None, s1) \<Rightarrow> snd (createNode clk userId name File content vfsParentId s1))"

definition ignoredEntry :: "string \<Rightarrow> bool" where
  "ignoredEntry name =
     (name \<in> set [''node_modules'', ''.git'', ''.DS_Store'', ''.env'', ''.vscode'']
      \<or> startsWith name ''__pycache__'')"

definition skippedEntry :: "string \<Rightarrow> string \<Rightarrow> string \<Rightarrow> bool" where
  "skippedEntry currentHostDir base name =
     (ignoredEntry name \<or> \<not> startsWith (path_join [currentHostDir, name]) base)"

fun recursivelyScanHostAndUploadToVFS ::
  "(nat \<Rightarrow> nat) \<Rightarrow> string \<Rightarrow> (string \<times> hostEntry) list \<Rightarrow> string \<Rightarrow> nat option \<Rightarrow> string
     \<Rightarrow> vfs \<Rightarrow> vfs" where
  "recursivelyScanHostAndUploadToVFS clk userId [] currentHostDir vfsParentId base s = s"
| "recursivelyScanHostAndUploadToVFS clk userId ((name, entry) # entries) currentHostDir vfsParentId
       base s =
     (if skippedEntry currentHostDir base name
      then recursivelyScanHostAndUploadToVFS clk userId entries currentHostDir vfsParentId base s
      else (case entry of
              HDir children \<Rightarrow>
                (case ensureFolder clk userId name vfsParentId s of
                   (vfsItem, s1) \<Rightarrow>
                     recursivelyScanHostAndUploadToVFS clk userId entries currentHostDir vfsParentId
                       base
                       (recursivelyScanHostAndUploadToVFS clk userId children
                          (path_join [currentHostDir, name]) (Some (d_id vfsItem)) base s1))
            | HFile content \<Rightarrow>
                recursivelyScanHostAndUploadToVFS clk userId entries currentHostDir vfsParentId base
                  (uploadFile clk userId name vfsParentId content s)
            | HOther \<Rightarrow>
                recursivelyScanHostAndUploadToVFS clk userId entries currentHostDir vfsParentId
                  base s))"

text \<open>
  \<open>syncWorkspaceToVfs\<close>: \<open>host\<close> is what lies at the host path, \<open>None\<close> when the path
  does not exist (the function logs and returns).
\<close>

definition syncWorkspaceToVfs ::
  "(nat \<Rightarrow> nat) \<Rightarrow> string \<Rightarrow> hostEntry option \<Rightarrow> string \<Rightarrow> nat option \<Rightarrow> vfs \<Rightarrow> error + vfs" where
  "syncWorkspaceToVfs clk userId host projectRootHostPath vfsProjectRootFolderId s =
     (case host of
        None \<Rightarrow> Inr s
      | Some (HDir entries) \<Rightarrow>
          Inr (recursivelyScanHostAndUploadToVFS clk userId entries projectRootHostPath
                 vfsProjectRootFolderId projectRootHostPath s)
      | Some _ \<Rightarrow> Inl (FsError ''ENOTDIR''))"

text \<open>
  The conditions under which push is studied. In a well-formed host directory the names
  of the entries of one directory differ. In a well-formed store ids are unique, no two
  nodes of one owner share both parent and name, the next fresh id is above every id and
  every parent id that occurs, and the parent links have no cycle: no node is its own
  ancestor. A parent argument is valid when it is the top level or an id below the next
  fresh id.
\<close>

fun wfHost :: "(string \<times> hostEntry) list \<Rightarrow> bool" where
  "wfHost [] = True"
| "wfHost ((name, entry) # entries) =
     (name \<notin> fst ` set entries
      \<and> (case entry of HDir children \<Rightarrow> wfHost children | _ \<Rightarrow> True)
      \<and> wfHost entries)"

definition docKey :: "doc \<Rightarrow> string \<times> string \<times> nat option" where
  "docKey d = (d_userId d, d_name d, d_parentId d)"

definition parentRel :: "db \<Rightarrow> (nat \<times> nat) set" where
  "parentRel docs = {(q, i). \<exists>d \<in> set docs. d_parentId d = Some q \<and> d_id d = i}"

definition validParent :: "nat option \<Rightarrow> vfs \<Rightarrow> bool" where
  "validParent p s = (p < Some (v_nextId s))"

definition storeOk :: "vfs \<Rightarrow> bool" where
  "storeOk s =
     (distinct (map d_id (v_docs s)) \<and> distinct (map docKey (v_docs s))
      \<and> (\<forall>d \<in> set (v_docs s). d_id d < v_nextId s \<and> validParent (d_parentId d) s)
      \<and> acyclic (parentRel (v_docs s)))"

text \<open>
  A store without a cycle has a ranking of its ids in which every node is above its
  parent; the proofs carry one along, in which moreover every id that is still fresh is
  above all smaller ids. The top level has rank 0.
\<close>

definition rk :: "(nat \<Rightarrow> nat) \<Rightarrow> nat option \<Rightarrow> nat" where
  "rk r q = (case q of None \<Rightarrow> 0 | Some i \<Rightarrow> Suc (r i))"

definition rankedStore :: "(nat \<Rightarrow> nat) \<Rightarrow> vfs \<Rightarrow> bool" where
  "rankedStore r s =
     (distinct (map d_id (v_docs s)) \<and> distinct (map docKey (v_docs s))
      \<and> (\<forall>d \<in> set (v_docs s). d_id d < v_nextId s \<and> rk r (d_parentId d) < rk r (Some (d_id d)))
      \<and> (\<forall>j i. v_nextId s \<le> j \<longrightarrow> i < j \<longrightarrow> r i < r j))"

text \<open>A node without its time stamp.\<close>

definition stripTime :: "doc \<Rightarrow> doc" where
  "stripTime d = d\<lparr>d_updatedAt := 0\<rparr>"

text \<open>
  The store agrees with a host directory below a parent when every entry that push does
  not skip has a node of its name and kind there, a file's node has the file's text, and
  a directory's node agrees with the directory's entries. \<open>slots\<close> are the places
  (name and parent) this reading looks at.
\<close>

fun synced :: "string \<Rightarrow> (string \<times> hostEntry) list \<Rightarrow> string \<Rightarrow> nat option \<Rightarrow> string \<Rightarrow> db \<Rightarrow> bool" where
  "synced userId [] currentHostDir vfsParentId base docs = True"
| "synced userId ((name, entry) # entries) currentHostDir vfsParentId base docs =
     ((if skippedEntry currentHostDir base name then True
       else (case entry of
               HDir children \<Rightarrow>
                 (case findOne docs userId name vfsParentId of
                    Some d \<Rightarrow> d_type d = Folder
                              \<and> synced userId children (path_join [currentHostDir, name])
                                   (Some (d_id d)) base docs
                  | None \<Rightarrow> False)
             | HFile content \<Rightarrow>
                 (case findOne docs userId name vfsParentId of
                    Some d \<Rightarrow> d_type d = File \<and> d_content d = content
                  | None \<Rightarrow> False)
             | HOther \<Rightarrow> True))
      \<and> synced userId entries currentHostDir vfsParentId base docs)"

fun slots :: "string \<Rightarrow> (string \<times> hostEntry) list \<Rightarrow> string \<Rightarrow> nat option \<Rightarrow> string \<Rightarrow> db
    \<Rightarrow> (string \<times> nat option) set" where
  "slots userId [] currentHostDir vfsParentId base docs = {}"
| "slots userId ((name, entry) # entries) currentHostDir vfsParentId base docs =
     (if skippedEntry currentHostDir base name then {}
      else (case entry of
              HDir children \<Rightarrow>
                insert (name, vfsParentId)
                  (case findOne docs userId name vfsParentId of
                     Some d \<Rightarrow> slots userId children (path_join [currentHostDir, name])
                                 (Some (d_id d)) base docs
                   | None \<Rightarrow> {})
            | HFile content \<Rightarrow> {(name, vfsParentId)}
            | HOther \<Rightarrow> {}))
     \<union> slots userId entries currentHostDir vfsParentId base docs"

text \<open>
  How one run of push relates the store before and after: a node of the result is new
  (its id was fresh) or was there before with the same id, owner, name, parent and kind;
  and the nodes of other owners and those at the places of a set \<open>K\<close> are the same before
  and after. A set of places is closed for a run below \<open>p\<close> on the names \<open>N\<close> when it
  holds none of the places the run starts from, none below a fresh id, and none below a
  folder of the owner whose own place is outside the set.
\<close>

definition origin :: "vfs \<Rightarrow> vfs \<Rightarrow> bool" where
  "origin s s' =
     (\<forall>d' \<in> set (v_docs s').
        v_nextId s \<le> d_id d'
        \<or> (\<exists>d \<in> set (v_docs s). d_id d = d_id d' \<and> docKey d = docKey d' \<and> d_type d = d_type d'))"

definition frame :: "string \<Rightarrow> (string \<times> nat option) set \<Rightarrow> vfs \<Rightarrow> vfs \<Rightarrow> bool" where
  "frame userId K s s' =
     (\<forall>d. (d_userId d \<noteq> userId \<or> (d_name d, d_parentId d) \<in> K)
          \<longrightarrow> (d \<in> set (v_docs s') \<longleftrightarrow> d \<in> set (v_docs s)))"

definition closedFor :: "string \<Rightarrow> (string \<times> nat option) set \<Rightarrow> nat option \<Rightarrow> string set \<Rightarrow> vfs \<Rightarrow> bool" where
  "closedFor userId K p N s =
     ((\<forall>n \<in> N. (n, p) \<notin> K)
      \<and> (\<forall>j n. v_nextId s \<le> j \<longrightarrow> (n, Some j) \<notin> K)
      \<and> (\<forall>d \<in> set (v_docs s). d_userId d = userId \<and> (d_name d, d_parentId d) \<notin> K
            \<longrightarrow> (\<forall>n. (n, Some (d_id d)) \<notin> K)))"

text \<open>What a run of push on the entries \<open>es\<close> below \<open>p\<close>, from \<open>s\<close> to \<open>s'\<close>, achieves.\<close>

definition pushResult ::
  "(nat \<Rightarrow> nat) \<Rightarrow> string \<Rightarrow> (string \<times> hostEntry) list \<Rightarrow> string \<Rightarrow> nat option \<Rightarrow> string
     \<Rightarrow> vfs \<Rightarrow> vfs \<Rightarrow> bool" where
  "pushResult r userId es cur p base s s' =
     (rankedStore r s' \<and> v_nextId s \<le> v_nextId s' \<and> origin s s'
      \<and> (\<forall>K. closedFor userId K p (fst ` set es) s \<longrightarrow> frame userId K s s')
      \<and> synced userId es cur p base (v_docs s'))"

text \<open>
  What a second run does, in the words of the amended claim: for each host file it looks
  at, in order, it reads the clock and, when the reading is more than 1000 ms after the
  node's \<open>updatedAt\<close>, saves the node with a new \<open>updatedAt\<close>; nothing else.
  \<open>visitedFiles\<close> are the ids of the file nodes a run looks at, in order.
\<close>

fun visitedFiles :: "string \<Rightarrow> (string \<times> hostEntry) list \<Rightarrow> string \<Rightarrow> nat option \<Rightarrow> string \<Rightarrow> db
    \<Rightarrow> nat list" where
  "visitedFiles userId [] currentHostDir vfsParentId base docs = []"
| "visitedFiles userId ((name, entry) # entries) currentHostDir vfsParentId base docs =
     (if skippedEntry currentHostDir base name then []
      else (case entry of
              HDir children \<Rightarrow>
                (case findOne docs userId name vfsParentId of
                   Some d \<Rightarrow> visitedFiles userId children (path_join [currentHostDir, name])
                               (Some (d_id d)) base docs
                 | None \<Rightarrow> [])
            | HFile content \<Rightarrow>
                (case findOne docs userId name vfsParentId of Some d \<Rightarrow> [d_id d] | None \<Rightarrow> [])
            | HOther \<Rightarrow> []))
     @ visitedFiles userId entries currentHostDir vfsParentId base docs"

definition touchIfStale :: "(nat \<Rightarrow> nat) \<Rightarrow> vfs \<Rightarrow> nat \<Rightarrow> vfs" where
  "touchIfStale clk s i =
     (case findById (v_docs s) i of
        None \<Rightarrow> s
      | Some d \<Rightarrow>
          (let (now, s1) = newDate clk s in
           if now - d_updatedAt d > 1000 then
             (let (now2, s2) = newDate clk s1
              in save clk (now2 \<noteq> d_updatedAt d) (d\<lparr>d_updatedAt := now2\<rparr>) s2)
           else s1))"

text \<open>The kind of node push expects for a host entry.\<close>

fun hostKind :: "hostEntry \<Rightarrow> kind" where
  "hostKind (HDir children) = Folder"
| "hostKind (HFile content) = File"
| "hostKind HOther = File"

text \<open>
  A store with a folder \<open>lib\<close> that holds a file, for a host directory in which \<open>lib\<close>
  is a file; and a store whose file has the text of the host's file. The clock of the
  examples advances five seconds with each reading.
\<close>

definition libFolder :: doc where
  "libFolder = \<lparr>d_id = 2, d_userId = ''u1'', d_name = ''lib'', d_type = Folder, d_content = [],
        d_parentId = Some 1, d_isTemplate = False, d_sharedWith = [], d_updatedAt = 0\<rparr>"

definition libChild :: doc where
  "libChild = \<lparr>d_id = 3, d_userId = ''u1'', d_name = ''x.js'', d_type = File, d_content = ''x'',
        d_parentId = Some 2, d_isTemplate = False, d_sharedWith = [], d_updatedAt = 0\<rparr>"

definition libStore :: vfs where
  "libStore = \<lparr>v_docs = [demoRoot, libFolder, libChild], v_nextId = 4, v_tick = 0\<rparr>"

definition libHost :: "(string \<times> hostEntry) list" where
  "libHost = [(''lib'', HFile ''hello'')]"

definition demoStore :: vfs where
  "demoStore = \<lparr>v_docs = demoDocs, v_nextId = 3, v_tick = 0\<rparr>"

definition demoHost :: "(string \<times> hostEntry) list" where
  "demoHost = [(''app.js'', HFile ''console.log(1)'')]"

definition slowClock :: "nat \<Rightarrow> nat" where
  "slowClock t = 5000 * Suc t"

section \<open>Path resolution\<close>

lemmas path_eval = resolveUserProjectPath_def path_resolve_def BASE_PROJECT_DIR_def
  startsWith_def stripLeadingSlash_def segs_def

lemmas perm_eval = checkProjectPermission_def findProjectRoot_def findShareEntry_def

lemmas demo_eval = demoDocs_def demoRoot_def demoFile_def demoFs_def dupDocs_def buildFs_def

lemmas fs_eval = existsSync_def isDirectory_def fsLookup_def mkdirChmod_def writeChmod_def
  mkdirRecursive_def chmod_def writeFile_def segs_def

text \<open>
  C1. A relative path whose resolution leaves the project root must be rejected with a
  path-traversal error, so that no file operation proceeds on it. The check of
  \<open>resolveUserProjectPath\<close> compares strings: the sibling directory \<open>demo2\<close> starts with
  the characters of the root \<open>demo\<close>, so \<open>../demo2/secret.txt\<close> is accepted although the
  resolved path is outside the root, and a reader of \<open>demo\<close> is served the file of the
  project that was not shared with them.
\<close>

theorem resolveUserProjectPath_prefix_escape:
  "resolveUserProjectPath ''/srv/app'' ''u1'' ''demo'' ''../demo2/secret.txt''
     = Inr ''/srv/app/projects/u1/demo2/secret.txt''
   \<and> path_resolve ''/srv/app'' [BASE_PROJECT_DIR ''/srv/app'', ''u1'', ''demo'']
     = ''/srv/app/projects/u1/demo''
   \<and> \<not> insideDir ''/srv/app/projects/u1/demo'' ''/srv/app/projects/u1/demo2/secret.txt''
   \<and> readFileContent ''/srv/app'' demoDocs demoFs ''u2'' ''u1'' ''demo'' ''../demo2/secret.txt''
     = (Response 200 (ContentJson ''s3cret''), demoFs)"
  by (simp add: readFileContent_def perm_eval demo_eval path_eval insideDir_def
      existsSync_def isDirectory_def fsLookup_def readFile_def)

theorem resolveUserProjectPath_prefix_escape_witness:
  "resolveUserProjectPath ''/srv/app'' ''u1'' ''demo'' ''../demo2/secret.txt''
     = Inr ''/srv/app/projects/u1/demo2/secret.txt''"
  by (rule resolveUserProjectPath_prefix_escape [THEN conjunct1])

section \<open>Permissions of the workspace file API\<close>

text \<open>
  C2. A user who is not the owner and whose share entry is Read must be refused every
  write-level operation. \<open>writeFileContent\<close> refuses with 403, but \<open>deleteItem\<close> asks
  \<open>checkProjectPermission\<close> for Read only: the reader \<open>u2\<close> deletes \<open>app.js\<close> of the
  project of \<open>u1\<close> and is answered 200.
\<close>

theorem deleteItem_read_share_deletes:
  "deleteItem ''/srv/app'' demoDocs demoFs ''u2'' ''u1'' ''demo'' ''app.js''
     = (Response 200 (Message ''Item deleted successfully.''),
        rmRecursive demoFs ''/srv/app/projects/u1/demo/app.js'')
   \<and> demoFs [''srv'', ''app'', ''projects'', ''u1'', ''demo'', ''app.js''] = Some (FsFile ''console.log(1)'')
   \<and> rmRecursive demoFs ''/srv/app/projects/u1/demo/app.js''
         [''srv'', ''app'', ''projects'', ''u1'', ''demo'', ''app.js''] = None
   \<and> status (fst (writeFileContent ''/srv/app'' demoDocs demoFs ''u2'' ''u1'' ''demo'' ''app.js'' (Some ''x'')))
     = 403"
  by (simp add: deleteItem_def writeFileContent_def perm_eval demo_eval path_eval
      existsSync_def fsLookup_def rmRecursive_def)

theorem deleteItem_read_share_deletes_witness:
  "deleteItem ''/srv/app'' demoDocs demoFs ''u2'' ''u1'' ''demo'' ''app.js''
     = (Response 200 (Message ''Item deleted successfully.''),
        rmRecursive demoFs ''/srv/app/projects/u1/demo/app.js'')"
  by (rule deleteItem_read_share_deletes [THEN conjunct1])

section \<open>The permission check\<close>



section \<open>File update\<close>

lemma findById_saveDoc:
  "findById docs (d_id x) \<noteq> None \<Longrightarrow> findById (saveDoc x docs) (d_id x) = Some x"
  by (induction docs) (auto simp: findById_def)

lemma findById_id: "findById docs i = Some d \<Longrightarrow> d_id d = i"
  by (auto simp: findById_def dest: find_Some_iff[THEN iffD1])

text \<open>
  C10. For a file node that exists and belongs to the caller, \<open>updateFile\<close> answers 200
  with the saved node; an empty or absent \<open>content\<close> leaves the stored content as it was,
  and an empty or absent \<open>name\<close> leaves the stored name as it was.
\<close>

theorem updateFile_empty_not_applied:
  assumes "findById docs fileId = Some file" and "d_userId file = reqUserId"
  shows "\<exists>f'. updateFile now docs reqUserId fileId name content
                = (Response 200 (FileJson f'), saveDoc f' docs)
             \<and> findById (saveDoc f' docs) fileId = Some f'
             \<and> (content = Some [] \<or> content = None \<longrightarrow> d_content f' = d_content file)
             \<and> (name = Some [] \<or> name = None \<longrightarrow> d_name f' = d_name file)"
proof -
  have i: "d_id file = fileId" using assms(1) by (rule findById_id)
  define f1 where "f1 = file\<lparr>d_name := jsOr name (d_name file), d_content := jsOr content (d_content file)\<rparr>"
  define f' where "f' = (if f1 = file then file else f1\<lparr>d_updatedAt := now\<rparr>)"
  have id': "d_id f' = fileId" using i by (simp add: f'_def f1_def)
  have "updateFile now docs reqUserId fileId name content = (Response 200 (FileJson f'), saveDoc f' docs)"
    using assms by (simp add: updateFile_def f'_def f1_def Let_def)
  moreover have "findById (saveDoc f' docs) fileId = Some f'"
    using findById_saveDoc[of docs f'] assms(1) id' by simp
  moreover have "content = Some [] \<or> content = None \<longrightarrow> d_content f' = d_content file"
    by (auto simp: f'_def f1_def jsOr_def)
  moreover have "name = Some [] \<or> name = None \<longrightarrow> d_name f' = d_name file"
    by (auto simp: f'_def f1_def jsOr_def)
  ultimately show ?thesis by blast
qed

theorem updateFile_empty_not_applied_witness:
  "\<exists>f'. updateFile 5 demoDocs ''u1'' 2 (Some ''main.js'') (Some [])
                = (Response 200 (FileJson f'), saveDoc f' demoDocs)
             \<and> findById (saveDoc f' demoDocs) 2 = Some f'
             \<and> d_content f' = ''console.log(1)''"
  using updateFile_empty_not_applied [of demoDocs 2 demoFile "''u1''" 5 "Some ''main.js''" "Some []"]
  by (simp add: findById_def demo_eval)

section \<open>Strings and paths\<close>

lemma splitSlash_nonempty [simp]: "splitSlash p \<noteq> []"
  by (induction p) (auto split: list.splits)

lemma splitSlash_append: "splitSlash (a @ CHR ''/'' # b) = splitSlash a @ splitSlash b"
  by (induction a) (auto split: list.splits)

lemma splitSlash_plain: "CHR ''/'' \<notin> set n \<Longrightarrow> splitSlash n = [n]"
  by (induction n) (auto split: list.splits)

lemma splitSlash_no_slash: "s \<in> set (splitSlash p) \<Longrightarrow> CHR ''/'' \<notin> set s"
  by (induction p arbitrary: s) (auto split: list.splits if_splits)

lemma normalizeString_append:
  "normalizeString al acc (xs @ ys) = normalizeString al (normalizeString al acc xs) ys"
  by (induction xs arbitrary: acc) auto

lemma normalizeString_plain: "plainName n \<Longrightarrow> normalizeString al acc [n] = acc @ [n]"
  by (auto simp: plainName_def)

lemma normalizeString_all_plain:
  "\<forall>s \<in> set ys. plainName s \<Longrightarrow> normalizeString al acc ys = acc @ ys"
  by (induction ys arbitrary: acc) (auto simp: plainName_def)

lemma normalizeString_result_plain:
  "\<forall>s \<in> set acc. plainName s \<Longrightarrow> \<forall>s \<in> set xs. CHR ''/'' \<notin> set s \<Longrightarrow>
   \<forall>s \<in> set (normalizeString False acc xs). plainName s"
proof (induction xs arbitrary: acc)
  case Nil
  then show ?case by simp
next
  case (Cons x xs)
  have xs: "\<forall>s \<in> set xs. CHR ''/'' \<notin> set s" using Cons.prems(2) by simp
  consider (skip) "x = [] \<or> x = ''.''" | (up) "x = ''..''"
    | (keep) "x \<noteq> []" "x \<noteq> ''.''" "x \<noteq> ''..''" by blast
  then show ?case
  proof cases
    case skip
    then have "normalizeString False acc (x # xs) = normalizeString False acc xs" by auto
    then show ?thesis using Cons.IH[OF Cons.prems(1) xs] by simp
  next
    case up
    have b: "\<forall>s \<in> set (butlast acc). plainName s"
      using Cons.prems(1) by (auto dest: in_set_butlastD)
    have "normalizeString False acc (x # xs) = normalizeString False acc xs
        \<or> normalizeString False acc (x # xs) = normalizeString False (butlast acc) xs"
      using up by simp
    then show ?thesis using Cons.IH[OF Cons.prems(1) xs] Cons.IH[OF b xs] by auto
  next
    case keep
    have "CHR ''/'' \<notin> set x" using Cons.prems(2) by simp
    then have "plainName x" using keep by (simp add: plainName_def)
    then have a: "\<forall>s \<in> set (acc @ [x]). plainName s" using Cons.prems(1) by simp
    have "normalizeString False acc (x # xs) = normalizeString False (acc @ [x]) xs"
      using keep by simp
    then show ?thesis using Cons.IH[OF a xs] by simp
  qed
qed

lemma segs_plain: "\<forall>s \<in> set (segs p). plainName s"
  unfolding segs_def by (rule normalizeString_result_plain) (auto dest: splitSlash_no_slash)

lemma joinSlash_snoc: "joinSlash (xs @ [n]) = (if xs = [] then n else joinSlash xs @ CHR ''/'' # n)"
  by (induction xs rule: joinSlash.induct) auto

lemma splitSlash_joinSlash:
  "ys \<noteq> [] \<Longrightarrow> \<forall>s \<in> set ys. CHR ''/'' \<notin> set s \<Longrightarrow> splitSlash (joinSlash ys) = ys"
  by (induction ys rule: joinSlash.induct) (auto simp: splitSlash_plain splitSlash_append)

lemma segs_joinSlash:
  assumes "\<forall>s \<in> set ys. plainName s"
  shows "segs (CHR ''/'' # joinSlash ys) = ys"
proof (cases "ys = []")
  case True
  then show ?thesis by (simp add: segs_def)
next
  case False
  have "splitSlash (joinSlash ys) = ys"
    using False assms by (intro splitSlash_joinSlash) (auto simp: plainName_def)
  then have "segs (CHR ''/'' # joinSlash ys) = normalizeString False [] ys"
    by (simp add: segs_def)
  then show ?thesis using assms by (simp add: normalizeString_all_plain)
qed

lemma path_join_plain:
  assumes "normalizedAbs cur" and "plainName n"
  shows "path_join [cur, n] = CHR ''/'' # joinSlash (segs cur @ [n])"
proof -
  have c: "cur = CHR ''/'' # joinSlash (segs cur)" using assms(1) by (simp add: normalizedAbs_def)
  then have ne: "cur \<noteq> []" and hd: "hd cur = CHR ''/''" by (metis list.distinct(1), metis list.sel(1))
  have n: "n \<noteq> []" "CHR ''/'' \<notin> set n" using assms(2) by (auto simp: plainName_def)
  have j: "path_join [cur, n] = posix_normalize (cur @ CHR ''/'' # n)"
    using ne n by (simp add: path_join_def)
  have "splitSlash (cur @ CHR ''/'' # n) = splitSlash cur @ [n]"
    by (simp only: splitSlash_append splitSlash_plain[OF n(2)])
  then have "normalizeString False [] (splitSlash (cur @ CHR ''/'' # n))
               = normalizeString False (segs cur) [n]"
    by (simp only: normalizeString_append segs_def)
  then have s: "normalizeString False [] (splitSlash (cur @ CHR ''/'' # n)) = segs cur @ [n]"
    by (simp only: normalizeString_plain[OF assms(2)])
  have "last n \<in> set n" using n(1) by (rule last_in_set)
  then have "last n \<noteq> CHR ''/''" using n(2) by metis
  then have l: "last (cur @ CHR ''/'' # n) \<noteq> CHR ''/''" using n(1) by (simp add: last_append)
  have ab: "isAbsolute (cur @ CHR ''/'' # n)" using ne hd by (simp add: isAbsolute_def)
  show ?thesis unfolding j posix_normalize_def using s l ab by (simp add: Let_def joinSlash_snoc)
qed

lemma path_join_plain_props:
  assumes "normalizedAbs cur" and "plainName n"
  shows "segs (path_join [cur, n]) = segs cur @ [n]"
    and "normalizedAbs (path_join [cur, n])"
    and "startsWith (path_join [cur, n]) cur"
proof -
  have pl: "\<forall>s \<in> set (segs cur @ [n]). plainName s" using segs_plain[of cur] assms(2) by auto
  show 1: "segs (path_join [cur, n]) = segs cur @ [n]"
    unfolding path_join_plain[OF assms] by (rule segs_joinSlash[OF pl])
  show "normalizedAbs (path_join [cur, n])"
    unfolding normalizedAbs_def 1 by (rule path_join_plain[OF assms])
  have c: "cur = CHR ''/'' # joinSlash (segs cur)" using assms(1) by (simp add: normalizedAbs_def)
  show "startsWith (path_join [cur, n]) cur"
  proof (cases "segs cur = []")
    case True
    then have "cur = ''/''" using c by simp
    then show ?thesis unfolding path_join_plain[OF assms] startsWith_def using True by simp
  next
    case False
    then have "path_join [cur, n] = cur @ CHR ''/'' # n"
      unfolding path_join_plain[OF assms] using c by (simp add: joinSlash_snoc)
    then show ?thesis by (simp add: startsWith_def)
  qed
qed

section \<open>Pull\<close>

lemma mkdirp_keeps:
  "mkdirp fs pre ss = Inr fs' \<Longrightarrow> fs q = Some e \<Longrightarrow> fs' q = Some e"
proof (induction ss arbitrary: fs pre)
  case Nil
  then show ?case by simp
next
  case (Cons s ss)
  show ?case
  proof (cases "fsLookup fs (pre @ [s])")
    case None
    then have n: "fs (pre @ [s]) = None" by (simp add: fsLookup_def)
    from Cons.prems(1) None have "mkdirp (fs(pre @ [s] \<mapsto> FsDir)) (pre @ [s]) ss = Inr fs'" by simp
    moreover have "(fs(pre @ [s] \<mapsto> FsDir)) q = Some e" using n Cons.prems(2) by auto
    ultimately show ?thesis by (rule Cons.IH)
  next
    case (Some a)
    then show ?thesis using Cons by (cases a) auto
  qed
qed

lemma chmod_same: "chmod fs p = Inr fs' \<Longrightarrow> fs' = fs"
  by (auto simp: chmod_def split: if_splits)

lemma mkdirChmod_keeps: "mkdirChmod fs p = Inr fs' \<Longrightarrow> fs q = Some e \<Longrightarrow> fs' q = Some e"
  by (auto simp: mkdirChmod_def mkdirRecursive_def split: sum.splits dest: chmod_same mkdirp_keeps)

lemma writeFile_upd:
  "writeFile fs p c = Inr fs' \<Longrightarrow> fs' = fs(segs p \<mapsto> FsFile c) \<and> fs (segs p) \<noteq> Some FsDir"
  by (auto simp: writeFile_def Let_def fsLookup_def split: if_splits option.splits fsnode.splits)

lemma writeChmod_upd:
  "writeChmod fs p c = Inr fs' \<Longrightarrow> fs' = fs(segs p \<mapsto> FsFile c) \<and> fs (segs p) \<noteq> Some FsDir"
  by (auto simp: writeChmod_def split: sum.splits dest: chmod_same writeFile_upd)

lemma create_frame:
  "createHostFilesRecursive items cur base fs = Inr fs' \<Longrightarrow> fs q = Some e \<Longrightarrow>
     fs' q \<noteq> None \<and> (q \<notin> fst ` set (fileEntries items cur) \<longrightarrow> fs' q = Some e)
     \<and> (e = FsDir \<longrightarrow> fs' q = Some FsDir)"
proof (induction items cur base fs arbitrary: fs' e rule: createHostFilesRecursive.induct)
  case (1 cur base fs)
  then show ?case by simp
next
  case (2 name type i content children items cur base fs)
  define p where "p = path_join [cur, name]"
  note run = "2.prems"(1)[simplified createHostFilesRecursive.simps Let_def, folded p_def]
  show ?case
  proof (cases "startsWith p base")
    case False
    then have "createHostFilesRecursive items cur base fs = Inr fs'"
      using run by simp
    from "2.IH"(1)[OF p_def False this "2.prems"(2)]
    show ?thesis by auto
  next
    case sw: True
    show ?thesis
    proof (cases "type = Folder")
      case fo: True
      obtain fs1 where m: "(if \<not> existsSync fs p then mkdirChmod fs p else Inr fs) = Inr fs1"
        using run sw fo by (auto split: sum.splits)
      obtain fs2 where c: "(if children \<noteq> [] then createHostFilesRecursive children p base fs1 else Inr fs1) = Inr fs2"
        using run sw fo m by (auto split: sum.splits)
      have r: "createHostFilesRecursive items cur base fs2 = Inr fs'"
        using run sw fo m c by (auto split: sum.splits)
      have q1: "fs1 q = Some e" using m "2.prems"(2) by (auto split: if_splits dest: mkdirChmod_keeps)
      have q2: "fs2 q \<noteq> None \<and> (q \<notin> fst ` set (fileEntries children p) \<longrightarrow> fs2 q = Some e)
                \<and> (e = FsDir \<longrightarrow> fs2 q = Some FsDir)"
      proof (cases "children = []")
        case True
        then show ?thesis using c q1 by auto
      next
        case False
        with c have "createHostFilesRecursive children p base fs1 = Inr fs2" by simp
        from "2.IH"(2)[OF p_def _ fo m False this q1] sw show ?thesis by simp
      qed
      then obtain e2 where e2: "fs2 q = Some e2" by auto
      from "2.IH"(3)[OF p_def _ fo m c r e2] sw
      have q3: "fs' q \<noteq> None \<and> (q \<notin> fst ` set (fileEntries items cur) \<longrightarrow> fs' q = Some e2)
                \<and> (e2 = FsDir \<longrightarrow> fs' q = Some FsDir)" by simp
      show ?thesis using q2 q3 e2 fo by (auto simp: p_def)
    next
      case fi: False
      obtain fs1 where w: "writeChmod fs p content = Inr fs1"
        using run sw fi by (auto split: sum.splits)
      have r: "createHostFilesRecursive items cur base fs1 = Inr fs'"
        using run sw fi w by (auto split: sum.splits)
      from writeChmod_upd[OF w] have u: "fs1 = fs(segs p \<mapsto> FsFile content)"
        and nd: "fs (segs p) \<noteq> Some FsDir" by auto
      obtain e1 where e1: "fs1 q = Some e1" and e1': "q \<noteq> segs p \<longrightarrow> e1 = e"
        and e1'': "e = FsDir \<longrightarrow> e1 = FsDir"
        using u nd "2.prems"(2) by (cases "q = segs p") auto
      from "2.IH"(4)[OF p_def _ fi w r e1] sw
      have q3: "fs' q \<noteq> None \<and> (q \<notin> fst ` set (fileEntries items cur) \<longrightarrow> fs' q = Some e1)
                \<and> (e1 = FsDir \<longrightarrow> fs' q = Some FsDir)" by simp
      show ?thesis using q3 e1' e1'' fi by (auto simp: p_def)
    qed
  qed
qed

lemma startsWith_trans: "startsWith p cur \<Longrightarrow> startsWith cur base \<Longrightarrow> startsWith p base"
  by (auto simp: startsWith_def)

lemma prefix_snoc_same:
  "prefix (xs @ [a]) q \<Longrightarrow> prefix (xs @ [b]) q \<Longrightarrow> a = b"
  by (auto simp: prefix_def)

lemma fileEntries_prefix:
  "wfItems items \<Longrightarrow> normalizedAbs cur \<Longrightarrow> q \<in> fst ` set (fileEntries items cur) \<Longrightarrow>
     \<exists>n \<in> vi_name ` set items. prefix (segs cur @ [n]) q"
proof (induction items cur rule: fileEntries.induct)
  case (1 cur)
  then show ?case by simp
next
  case (2 name type i content children items cur)
  define p where "p = path_join [cur, name]"
  have pn: "plainName name" and wc: "wfItems children" and wi: "wfItems items"
    using "2.prems"(1) by auto
  have sp: "segs p = segs cur @ [name]" and np: "normalizedAbs p"
    unfolding p_def using path_join_plain_props[OF "2.prems"(2) pn] by auto
  consider (child) "type = Folder" "q \<in> fst ` set (fileEntries children p)"
    | (self) "type \<noteq> Folder" "q = segs p"
    | (rest) "q \<in> fst ` set (fileEntries items cur)"
    using "2.prems"(3) by (auto simp: p_def split: if_splits)
  then show ?case
  proof cases
    case child
    from "2.IH"(1)[OF child(1) wc, folded p_def, OF np child(2)]
    obtain m where "prefix (segs p @ [m]) q" by auto
    then have "prefix (segs cur @ [name]) q" unfolding sp by (auto simp: prefix_def)
    then show ?thesis by auto
  next
    case self
    then show ?thesis using sp by auto
  next
    case rest
    from "2.IH"(2)[OF wi "2.prems"(2) rest] show ?thesis by auto
  qed
qed

lemma create_fidelity:
  "wfItems items \<Longrightarrow> normalizedAbs cur \<Longrightarrow> startsWith cur base \<Longrightarrow>
   createHostFilesRecursive items cur base fs = Inr fs' \<Longrightarrow>
   (q, c) \<in> set (fileEntries items cur) \<Longrightarrow> fs' q = Some (FsFile c)"
proof (induction items cur base fs arbitrary: fs' rule: createHostFilesRecursive.induct)
  case (1 cur base fs)
  then show ?case by simp
next
  case (2 name type i content children items cur base fs)
  define p where "p = path_join [cur, name]"
  note run = "2.prems"(4)[simplified createHostFilesRecursive.simps Let_def, folded p_def]
  have pn: "plainName name" and wc: "wfItems children" and wi: "wfItems items"
    and fresh: "name \<notin> vi_name ` set items"
    using "2.prems"(1) by auto
  have sp: "segs p = segs cur @ [name]" and np: "normalizedAbs p" and "startsWith p cur"
    unfolding p_def using path_join_plain_props[OF "2.prems"(2) pn] by auto
  then have sw: "startsWith p base" using "2.prems"(3) startsWith_trans by blast
  have notrest: "q' \<notin> fst ` set (fileEntries items cur)" if "prefix (segs cur @ [name]) q'" for q'
  proof
    assume "q' \<in> fst ` set (fileEntries items cur)"
    from fileEntries_prefix[OF wi "2.prems"(2) this]
    obtain n where "n \<in> vi_name ` set items" "prefix (segs cur @ [n]) q'" by auto
    with that fresh show False using prefix_snoc_same by metis
  qed
  show ?case
  proof (cases "type = Folder")
    case fo: True
    obtain fs1 where m: "(if \<not> existsSync fs p then mkdirChmod fs p else Inr fs) = Inr fs1"
      using run sw fo by (auto split: sum.splits)
    obtain fs2 where ch: "(if children \<noteq> [] then createHostFilesRecursive children p base fs1 else Inr fs1) = Inr fs2"
      using run sw fo m by (auto split: sum.splits)
    have r: "createHostFilesRecursive items cur base fs2 = Inr fs'"
      using run sw fo m ch by (auto split: sum.splits)
    consider (child) "(q, c) \<in> set (fileEntries children p)"
      | (rest) "(q, c) \<in> set (fileEntries items cur)"
      using "2.prems"(5) fo by (auto simp: p_def)
    then show ?thesis
    proof cases
      case child
      then have ne: "children \<noteq> []" by auto
      with ch have c1: "createHostFilesRecursive children p base fs1 = Inr fs2" by simp
      have sw': "\<not> \<not> startsWith p base" using sw by simp
      from "2.IH"(2)[OF p_def sw' fo m ne wc np sw c1 child]
      have f2: "fs2 q = Some (FsFile c)" .
      have "q \<in> fst ` set (fileEntries children p)" using child by force
      from fileEntries_prefix[OF wc np this]
      obtain mm where "prefix (segs p @ [mm]) q" by auto
      then have "prefix (segs cur @ [name]) q" unfolding sp by (auto simp: prefix_def)
      then have "q \<notin> fst ` set (fileEntries items cur)" by (rule notrest)
      with create_frame[OF r f2] show ?thesis by simp
    next
      case rest
      have sw': "\<not> \<not> startsWith p base" using sw by simp
      from "2.IH"(3)[OF p_def sw' fo m ch wi "2.prems"(2) "2.prems"(3) r rest] show ?thesis .
    qed
  next
    case fi: False
    obtain fs1 where w: "writeChmod fs p content = Inr fs1"
      using run sw fi by (auto split: sum.splits)
    have r: "createHostFilesRecursive items cur base fs1 = Inr fs'"
      using run sw fi w by (auto split: sum.splits)
    consider (self) "q = segs p" "c = content"
      | (rest) "(q, c) \<in> set (fileEntries items cur)"
      using "2.prems"(5) fi by (auto simp: p_def)
    then show ?thesis
    proof cases
      case self
      from writeChmod_upd[OF w] have f1: "fs1 q = Some (FsFile c)" using self by simp
      have "prefix (segs cur @ [name]) q" using self sp by simp
      then have "q \<notin> fst ` set (fileEntries items cur)" by (rule notrest)
      with create_frame[OF r f1] show ?thesis by simp
    next
      case rest
      have sw': "\<not> \<not> startsWith p base" using sw by simp
      from "2.IH"(4)[OF p_def sw' fi w wi "2.prems"(2) "2.prems"(3) r rest] show ?thesis .
    qed
  qed
qed

lemma create_skips_escaping:
  "createHostFilesRecursive items cur base fs
     = createHostFilesRecursive
         (filter (\<lambda>item. startsWith (path_join [cur, vi_name item]) base) items) cur base fs"
proof (induction items arbitrary: fs)
  case Nil
  then show ?case by simp
next
  case (Cons item items)
  obtain name type i content children where it: "item = VfsItem name type i content children"
    by (cases item)
  show ?case unfolding it using Cons.IH
    by (cases "startsWith (path_join [cur, name]) base")
      (auto simp: Let_def split: sum.splits)
qed


text \<open>
  Two sibling file nodes of one name, which the store allows, share their host path: the
  later one overwrites the earlier.
\<close>

theorem pull_duplicate_names_overwrite:
  "pullFileEntries (Suc (Suc 0)) dupDocs ''u1'' (Some 1) ''/srv/app/projects/u1/demo''
     = [([''srv'', ''app'', ''projects'', ''u1'', ''demo'', ''a.txt''], ''one''),
        ([''srv'', ''app'', ''projects'', ''u1'', ''demo'', ''a.txt''], ''two'')]
   \<and> map_option (map_sum id (\<lambda>fs'. fs' [''srv'', ''app'', ''projects'', ''u1'', ''demo'', ''a.txt'']))
        (syncProjectFromVfsToHost (Suc (Suc 0)) dupDocs ''u1'' (Some 1) ''/srv/app/projects/u1/demo'' Map.empty)
     = Some (Inr (Some (FsFile ''two'')))"
  by (simp add: pullFileEntries_def syncProjectFromVfsToHost_def demo_eval fs_eval
      path_join_def posix_normalize_def isAbsolute_def startsWith_def)

text \<open>
  C7. A pull that completes deletes nothing: every host entry that existed before still
  exists, a directory stays a directory, and an entry that is not the host path of a
  file node of the fetched structure keeps its content.
\<close>

theorem pull_never_deletes:
  assumes "syncProjectFromVfsToHost fuel docs userId root hostPath fs = Some (Inr fs')"
    and "fs q = Some e"
  shows "fs' q \<noteq> None \<and> (e = FsDir \<longrightarrow> fs' q = Some FsDir)
       \<and> (q \<notin> fst ` set (pullFileEntries fuel docs userId root hostPath) \<longrightarrow> fs' q = Some e)"
proof -
  obtain fs1 where m: "(if \<not> existsSync fs hostPath then mkdirChmod fs hostPath else Inr fs) = Inr fs1"
    using assms(1) by (auto simp: syncProjectFromVfsToHost_def split: sum.splits)
  obtain items where g: "getVfsDescendants fuel docs userId root = Some items"
    using assms(1) m by (auto simp: syncProjectFromVfsToHost_def split: sum.splits option.splits)
  have r: "createHostFilesRecursive items hostPath hostPath fs1 = Inr fs'"
    using assms(1) m g by (auto simp: syncProjectFromVfsToHost_def split: sum.splits)
  have q1: "fs1 q = Some e" using m assms(2) by (auto split: if_splits dest: mkdirChmod_keeps)
  from create_frame[OF r q1] show ?thesis by (simp add: pullFileEntries_def g)
qed

theorem pull_never_deletes_witness:
  "\<exists>fs'. syncProjectFromVfsToHost (Suc (Suc 0)) demoDocs ''u1'' (Some 1) ''/srv/app/projects/u1/demo'' buildFs
             = Some (Inr fs')
        \<and> fs' [''srv'', ''app'', ''projects'', ''u1'', ''demo'', ''build.log''] = Some (FsFile ''ok'')
        \<and> fs' [''srv'', ''app'', ''projects'', ''u1'', ''demo''] = Some FsDir"
proof -
  obtain fs' where s: "syncProjectFromVfsToHost (Suc (Suc 0)) demoDocs ''u1'' (Some 1) ''/srv/app/projects/u1/demo'' buildFs
             = Some (Inr fs')"
    by (simp add: syncProjectFromVfsToHost_def demo_eval fs_eval
      path_join_def posix_normalize_def isAbsolute_def startsWith_def)
  have a: "buildFs [''srv'', ''app'', ''projects'', ''u1'', ''demo'', ''build.log''] = Some (FsFile ''ok'')"
    by (simp add: buildFs_def)
  have b: "buildFs [''srv'', ''app'', ''projects'', ''u1'', ''demo''] = Some FsDir"
    by (simp add: buildFs_def)
  have n: "[''srv'', ''app'', ''projects'', ''u1'', ''demo'', ''build.log'']
      \<notin> fst ` set (pullFileEntries (Suc (Suc 0)) demoDocs ''u1'' (Some 1) ''/srv/app/projects/u1/demo'')"
    by (simp add: pullFileEntries_def demo_eval fs_eval path_join_def posix_normalize_def isAbsolute_def)
  show ?thesis using pull_never_deletes[OF s a] pull_never_deletes[OF s b] n s by auto
qed

text \<open>
  C6. After a pull every file node should have its host file, and an entry whose host path
  leaves the host root should be skipped. The check of \<open>createHostFilesRecursive\<close>
  compares strings, as that of \<open>resolveUserProjectPath\<close> does: the path of the node
  \<open>../demo2/secret.txt\<close> of the project \<open>demo\<close> starts with the characters of the root
  \<open>demo\<close>, so the entry is not skipped, and the pull of \<open>demo\<close> overwrites the file of the
  sibling directory \<open>demo2\<close>, which is outside the root.
\<close>

theorem pull_writes_outside_root:
  "map_option (map_sum id (\<lambda>fs'. fs' [''srv'', ''app'', ''projects'', ''u1'', ''demo2'', ''secret.txt'']))
        (syncProjectFromVfsToHost (Suc (Suc 0)) escDocs ''u1'' (Some 1) ''/srv/app/projects/u1/demo'' demoFs)
     = Some (Inr (Some (FsFile ''overwritten'')))
   \<and> demoFs [''srv'', ''app'', ''projects'', ''u1'', ''demo2'', ''secret.txt''] = Some (FsFile ''s3cret'')
   \<and> path_join [''/srv/app/projects/u1/demo'', ''../demo2/secret.txt'']
        = ''/srv/app/projects/u1/demo2/secret.txt''
   \<and> \<not> insideDir ''/srv/app/projects/u1/demo'' ''/srv/app/projects/u1/demo2/secret.txt''
   \<and> startsWith ''/srv/app/projects/u1/demo2/secret.txt'' ''/srv/app/projects/u1/demo''"
  by (simp add: syncProjectFromVfsToHost_def escDocs_def demo_eval fs_eval insideDir_def
      path_join_def posix_normalize_def isAbsolute_def startsWith_def)

theorem pull_writes_outside_root_witness:
  "map_option (map_sum id (\<lambda>fs'. fs' [''srv'', ''app'', ''projects'', ''u1'', ''demo2'', ''secret.txt'']))
        (syncProjectFromVfsToHost (Suc (Suc 0)) escDocs ''u1'' (Some 1) ''/srv/app/projects/u1/demo'' demoFs)
     = Some (Inr (Some (FsFile ''overwritten'')))"
  by (rule pull_writes_outside_root [THEN conjunct1])

text \<open>
  What does hold of a pull: when the host root is a normalized absolute path and, in the
  fetched structure, every name is a single path segment and sibling names differ, then
  after a pull that completes every file node of the fetched structure has its host file,
  with exactly the node's content; and an entry whose host path does not start with the
  characters of the host root has no effect.
\<close>

theorem pull_fidelity:
  assumes "normalizedAbs hostPath"
    and "getVfsDescendants fuel docs userId root = Some vfsStructure"
    and "wfItems vfsStructure"
    and "syncProjectFromVfsToHost fuel docs userId root hostPath fs = Some (Inr fs')"
  shows "(\<forall>(q, c) \<in> set (fileEntries vfsStructure hostPath). fs' q = Some (FsFile c))
       \<and> (\<forall>items cur fs0. createHostFilesRecursive items cur hostPath fs0
             = createHostFilesRecursive
                 (filter (\<lambda>item. startsWith (path_join [cur, vi_name item]) hostPath) items)
                 cur hostPath fs0)"
proof -
  obtain fs1 where m: "(if \<not> existsSync fs hostPath then mkdirChmod fs hostPath else Inr fs) = Inr fs1"
    using assms(4) by (auto simp: syncProjectFromVfsToHost_def split: sum.splits)
  have r: "createHostFilesRecursive vfsStructure hostPath hostPath fs1 = Inr fs'"
    using assms(4) m assms(2) by (auto simp: syncProjectFromVfsToHost_def split: sum.splits)
  have sw: "startsWith hostPath hostPath" by (simp add: startsWith_def)
  have "fs' q = Some (FsFile c)" if "(q, c) \<in> set (fileEntries vfsStructure hostPath)" for q c
    using create_fidelity[OF assms(3) assms(1) sw r that] .
  then show ?thesis using create_skips_escaping by blast
qed

theorem pull_fidelity_example:
  "\<exists>fs'. syncProjectFromVfsToHost (Suc (Suc 0)) demoDocs ''u1'' (Some 1) ''/srv/app/projects/u1/demo'' buildFs
             = Some (Inr fs')
        \<and> fs' [''srv'', ''app'', ''projects'', ''u1'', ''demo'', ''app.js''] = Some (FsFile ''console.log(1)'')"
proof -
  obtain fs' where s: "syncProjectFromVfsToHost (Suc (Suc 0)) demoDocs ''u1'' (Some 1) ''/srv/app/projects/u1/demo'' buildFs
             = Some (Inr fs')"
    by (simp add: syncProjectFromVfsToHost_def demo_eval fs_eval
      path_join_def posix_normalize_def isAbsolute_def startsWith_def)
  have n: "normalizedAbs ''/srv/app/projects/u1/demo''" by (simp add: normalizedAbs_def segs_def)
  have g: "getVfsDescendants (Suc (Suc 0)) demoDocs ''u1'' (Some 1) = Some [VfsItem ''app.js'' File 2 ''console.log(1)'' []]"
    by (simp add: demo_eval)
  have w: "wfItems [VfsItem ''app.js'' File 2 ''console.log(1)'' []]" by (simp add: plainName_def)
  have e: "([''srv'', ''app'', ''projects'', ''u1'', ''demo'', ''app.js''], ''console.log(1)'')
      \<in> set (fileEntries [VfsItem ''app.js'' File 2 ''console.log(1)'' []] ''/srv/app/projects/u1/demo'')"
    by (simp add: fs_eval path_join_def posix_normalize_def isAbsolute_def)
  show ?thesis using pull_fidelity[OF n g w s] e s by auto
qed

section \<open>Container sessions\<close>




















section \<open>Push\<close>

lemma findOne_SomeD:
  "findOne docs u n p = Some d \<Longrightarrow> d \<in> set docs \<and> docKey d = (u, n, p)"
  unfolding findOne_def docKey_def by (induction docs) (auto split: if_splits)

lemma findOne_None_iff:
  "findOne docs u n p = None \<longleftrightarrow> (\<forall>d \<in> set docs. docKey d \<noteq> (u, n, p))"
  unfolding findOne_def docKey_def by (induction docs) auto

lemma findOne_Some_iff:
  assumes "distinct (map docKey docs)"
  shows "findOne docs u n p = Some d \<longleftrightarrow> d \<in> set docs \<and> docKey d = (u, n, p)"
proof
  assume "findOne docs u n p = Some d"
  then show "d \<in> set docs \<and> docKey d = (u, n, p)" by (rule findOne_SomeD)
next
  assume r: "d \<in> set docs \<and> docKey d = (u, n, p)"
  then have "findOne docs u n p \<noteq> None" unfolding findOne_None_iff by blast
  then obtain d' where f: "findOne docs u n p = Some d'" by blast
  from findOne_SomeD[OF f] have d': "d' \<in> set docs" "docKey d' = (u, n, p)" by simp_all
  have "inj_on docKey (set docs)" using assms by (simp add: distinct_map)
  from inj_onD[OF this, of d' d] d' r have "d' = d" by simp
  then show "findOne docs u n p = Some d" using f by simp
qed

lemma set_deleteOne:
  "distinct (map d_id docs) \<Longrightarrow> set (deleteOne i docs) = {d \<in> set docs. d_id d \<noteq> i}"
proof (induction docs)
  case Nil
  then show ?case by simp
next
  case (Cons a docs)
  then have ih: "set (deleteOne i docs) = {d \<in> set docs. d_id d \<noteq> i}" by simp
  have "d_id a \<notin> d_id ` set docs" using Cons.prems by simp
  then have na: "\<forall>d \<in> set docs. d_id d \<noteq> d_id a" by (metis image_eqI)
  show ?case
  proof (cases "d_id a = i")
    case True
    then have "set (deleteOne i (a # docs)) = set docs" by simp
    moreover have "{d \<in> set (a # docs). d_id d \<noteq> i} = set docs"
      using True na by (simp only: set_simps) blast
    ultimately show ?thesis by simp
  next
    case False
    then have "set (deleteOne i (a # docs)) = insert a (set (deleteOne i docs))" by simp
    moreover have "{d \<in> set (a # docs). d_id d \<noteq> i} = insert a {d \<in> set docs. d_id d \<noteq> i}"
      using False by (simp only: set_simps) blast
    ultimately show ?thesis using ih by simp
  qed
qed

lemma deleteOne_subset: "set (deleteOne i docs) \<subseteq> set docs"
proof (induction docs)
  case Nil
  then show ?case by simp
next
  case (Cons a docs)
  then show ?case by (cases "d_id a = i") (simp, blast)+
qed

lemma distinct_map_deleteOne:
  "distinct (map f docs) \<Longrightarrow> distinct (map f (deleteOne i docs))"
proof (induction docs)
  case Nil
  then show ?case by simp
next
  case (Cons x xs)
  have "f x \<notin> f ` set xs" using Cons.prems by simp
  then have "f x \<notin> f ` set (deleteOne i xs)" using deleteOne_subset[of i xs] by (metis image_mono subsetD)
  then show ?case using Cons by simp
qed

lemma map_saveDoc:
  "distinct (map d_id docs) \<Longrightarrow> d \<in> set docs \<Longrightarrow> d_id d' = d_id d \<Longrightarrow> f d' = f d \<Longrightarrow>
     map f (saveDoc d' docs) = map f docs"
proof (induction docs)
  case Nil
  then show ?case by simp
next
  case (Cons a docs)
  have na: "d_id a \<notin> d_id ` set docs" using Cons.prems(1) by simp
  show ?case
  proof (cases "d_id a = d_id d'")
    case True
    then have "d \<notin> set docs" using na Cons.prems(3) by (metis image_eqI)
    then have "a = d" using Cons.prems(2) by simp
    then show ?thesis using True Cons.prems(4) by simp
  next
    case False
    then have "d \<in> set docs" using Cons.prems(2,3) by (cases "d = a") simp_all
    then show ?thesis using False Cons by simp
  qed
qed

lemma set_saveDoc:
  "distinct (map d_id docs) \<Longrightarrow> d \<in> set docs \<Longrightarrow> d_id d' = d_id d \<Longrightarrow>
     set (saveDoc d' docs) = insert d' (set docs - {d})"
proof (induction docs)
  case Nil
  then show ?case by simp
next
  case (Cons a docs)
  have na: "d_id a \<notin> d_id ` set docs" using Cons.prems(1) by simp
  show ?case
  proof (cases "d_id a = d_id d'")
    case True
    then have nd: "d \<notin> set docs" using na Cons.prems(3) by (metis image_eqI)
    then have ad: "a = d" using Cons.prems(2) by simp
    have "set (saveDoc d' (a # docs)) = insert d' (set docs)" using True by simp
    moreover have "set (a # docs) - {d} = set docs" using ad nd by (simp only: set_simps) blast
    ultimately show ?thesis by simp
  next
    case False
    then have din: "d \<in> set docs" and nad: "a \<noteq> d" using Cons.prems(2,3) by (cases "d = a"; simp)+
    have "set (saveDoc d' (a # docs)) = insert a (set (saveDoc d' docs))" using False by simp
    also have "\<dots> = insert a (insert d' (set docs - {d}))" using Cons.IH din Cons.prems by simp
    also have "\<dots> = insert d' (set (a # docs) - {d})" using nad by (simp only: set_simps) blast
    finally show ?thesis .
  qed
qed

lemma ranked_ids: "rankedStore r s \<Longrightarrow> distinct (map d_id (v_docs s))"
  and ranked_keys: "rankedStore r s \<Longrightarrow> distinct (map docKey (v_docs s))"
  and ranked_bound: "rankedStore r s \<Longrightarrow> d \<in> set (v_docs s) \<Longrightarrow> d_id d < v_nextId s"
  and ranked_parent: "rankedStore r s \<Longrightarrow> d \<in> set (v_docs s)
      \<Longrightarrow> rk r (d_parentId d) < rk r (Some (d_id d))"
  and ranked_fresh: "rankedStore r s \<Longrightarrow> v_nextId s \<le> j \<Longrightarrow> i < j \<Longrightarrow> r i < r j"
  by (simp_all add: rankedStore_def)

lemma rankedStoreI:
  assumes "distinct (map d_id (v_docs s))" and "distinct (map docKey (v_docs s))"
    and "\<And>d. d \<in> set (v_docs s) \<Longrightarrow> d_id d < v_nextId s"
    and "\<And>d. d \<in> set (v_docs s) \<Longrightarrow> rk r (d_parentId d) < rk r (Some (d_id d))"
    and "\<And>j i. v_nextId s \<le> j \<Longrightarrow> i < j \<Longrightarrow> r i < r j"
  shows "rankedStore r s"
  unfolding rankedStore_def using assms by blast

lemma rk_simps [simp]: "rk r None = 0" "rk r (Some i) = Suc (r i)"
  by (simp_all add: rk_def)

lemma rk_validParent:
  "rankedStore r s \<Longrightarrow> validParent p s \<Longrightarrow> v_nextId s \<le> j \<Longrightarrow> rk r p < rk r (Some j)"
proof (cases p)
  case None
  then show ?thesis by simp
next
  case (Some a)
  assume ok: "rankedStore r s" and vp: "validParent p s" and j: "v_nextId s \<le> j"
  have "a < j" using vp j Some by (simp add: validParent_def)
  from ranked_fresh[OF ok j this] show ?thesis using Some by simp
qed

lemma same_id_same_doc:
  "rankedStore r s \<Longrightarrow> d \<in> set (v_docs s) \<Longrightarrow> d' \<in> set (v_docs s) \<Longrightarrow> d_id d = d_id d' \<Longrightarrow> d = d'"
  using inj_onD[of d_id "set (v_docs s)" d d'] by (simp add: rankedStore_def distinct_map)

lemma same_key_same_doc:
  "rankedStore r s \<Longrightarrow> d \<in> set (v_docs s) \<Longrightarrow> d' \<in> set (v_docs s) \<Longrightarrow> docKey d = docKey d' \<Longrightarrow> d = d'"
  using inj_onD[of docKey "set (v_docs s)" d d'] by (simp add: rankedStore_def distinct_map)

lemma origin_refl: "origin s s"
  unfolding origin_def by blast

lemma origin_trans:
  assumes "origin s s1" and "origin s1 s2" and "v_nextId s \<le> v_nextId s1"
  shows "origin s s2"
  unfolding origin_def
proof
  fix d2 assume "d2 \<in> set (v_docs s2)"
  with assms(2) consider (new) "v_nextId s1 \<le> d_id d2"
    | (old) d1 where "d1 \<in> set (v_docs s1)" "d_id d1 = d_id d2" "docKey d1 = docKey d2" "d_type d1 = d_type d2"
    unfolding origin_def by blast
  then show "v_nextId s \<le> d_id d2 \<or> (\<exists>d\<in>set (v_docs s). d_id d = d_id d2 \<and> docKey d = docKey d2 \<and> d_type d = d_type d2)"
  proof cases
    case new
    then show ?thesis using assms(3) by simp
  next
    case old
    from assms(1) old(1) consider (new1) "v_nextId s \<le> d_id d1"
      | (old1) d0 where "d0 \<in> set (v_docs s)" "d_id d0 = d_id d1" "docKey d0 = docKey d1" "d_type d0 = d_type d1"
      unfolding origin_def by blast
    then show ?thesis
    proof cases
      case new1
      then show ?thesis using old(2) by simp
    next
      case old1
      then show ?thesis using old by (metis)
    qed
  qed
qed

lemma dropWrongKind_props:
  assumes ok: "rankedStore r s" and r: "dropWrongKind k (findOne (v_docs s) u n p) s = (v, s1)"
  shows "rankedStore r s1" and "v_nextId s1 = v_nextId s" and "v_tick s1 = v_tick s"
    and "set (v_docs s1) \<subseteq> set (v_docs s)"
    and "\<And>d. docKey d \<noteq> (u, n, p) \<Longrightarrow> d \<in> set (v_docs s1) \<longleftrightarrow> d \<in> set (v_docs s)"
    and "\<And>d. v = Some d \<Longrightarrow> s1 = s \<and> d \<in> set (v_docs s) \<and> docKey d = (u, n, p) \<and> d_type d = k"
    and "\<And>d. v = None \<Longrightarrow> d \<in> set (v_docs s1) \<Longrightarrow> docKey d \<noteq> (u, n, p)"
proof -
  consider (none) "findOne (v_docs s) u n p = None" "v = None" "s1 = s"
    | (right) d0 where "findOne (v_docs s) u n p = Some d0" "d_type d0 = k" "v = Some d0" "s1 = s"
    | (wrong) d0 where "findOne (v_docs s) u n p = Some d0" "d_type d0 \<noteq> k" "v = None"
        "s1 = s\<lparr>v_docs := deleteOne (d_id d0) (v_docs s)\<rparr>"
    using r by (cases "findOne (v_docs s) u n p") (auto simp: dropWrongKind_def split: if_splits)
  then have "rankedStore r s1 \<and> v_nextId s1 = v_nextId s \<and> v_tick s1 = v_tick s
      \<and> set (v_docs s1) \<subseteq> set (v_docs s)
      \<and> (\<forall>d. docKey d \<noteq> (u, n, p) \<longrightarrow> (d \<in> set (v_docs s1) \<longleftrightarrow> d \<in> set (v_docs s)))
      \<and> (\<forall>d. v = Some d \<longrightarrow> s1 = s \<and> d \<in> set (v_docs s) \<and> docKey d = (u, n, p) \<and> d_type d = k)
      \<and> (\<forall>d. v = None \<longrightarrow> d \<in> set (v_docs s1) \<longrightarrow> docKey d \<noteq> (u, n, p))"
  proof cases
    case none
    then show ?thesis using ok by (simp add: findOne_None_iff)
  next
    case right
    from findOne_SomeD[OF right(1)] right ok show ?thesis by simp
  next
    case wrong
    from findOne_SomeD[OF wrong(1)] have d0: "d0 \<in> set (v_docs s)" "docKey d0 = (u, n, p)" by simp_all
    have st: "set (v_docs s1) = {d \<in> set (v_docs s). d_id d \<noteq> d_id d0}"
      using wrong(4) set_deleteOne[OF ranked_ids[OF ok]] by simp
    have sub: "set (v_docs s1) \<subseteq> set (v_docs s)" using st by blast
    have k1: "docKey d \<noteq> (u, n, p)" if "d \<in> set (v_docs s1)" for d
    proof
      assume "docKey d = (u, n, p)"
      then have "d = d0" using same_key_same_doc[OF ok _ d0(1)] that sub d0(2) by (metis subsetD)
      then show False using that st by simp
    qed
    have k2: "d \<in> set (v_docs s1) \<longleftrightarrow> d \<in> set (v_docs s)" if "docKey d \<noteq> (u, n, p)" for d
    proof
      assume "d \<in> set (v_docs s1)" then show "d \<in> set (v_docs s)" using sub by blast
    next
      assume a: "d \<in> set (v_docs s)"
      have "d \<noteq> d0" using that d0(2) by metis
      then have "d_id d \<noteq> d_id d0" using same_id_same_doc[OF ok a d0(1)] by metis
      then show "d \<in> set (v_docs s1)" using st a by simp
    qed
    have ok1: "rankedStore r s1"
    proof (rule rankedStoreI)
      show "distinct (map d_id (v_docs s1))"
        using wrong(4) distinct_map_deleteOne[OF ranked_ids[OF ok]] by simp
      show "distinct (map docKey (v_docs s1))"
        using wrong(4) distinct_map_deleteOne[OF ranked_keys[OF ok]] by simp
    next
      fix d assume "d \<in> set (v_docs s1)"
      then have "d \<in> set (v_docs s)" using sub by blast
      then show "d_id d < v_nextId s1" using ranked_bound[OF ok] wrong(4) by simp
    next
      fix d assume "d \<in> set (v_docs s1)"
      then have "d \<in> set (v_docs s)" using sub by blast
      then show "rk r (d_parentId d) < rk r (Some (d_id d))" using ranked_parent[OF ok] by blast
    next
      fix j i assume "v_nextId s1 \<le> j" "i < j"
      then show "r i < r j" using ranked_fresh[OF ok, of j i] wrong(4) by simp
    qed
    show ?thesis using ok1 sub k1 k2 wrong by simp
  qed
  then show "rankedStore r s1" and "v_nextId s1 = v_nextId s" and "v_tick s1 = v_tick s"
    and "set (v_docs s1) \<subseteq> set (v_docs s)"
    and "\<And>d. docKey d \<noteq> (u, n, p) \<Longrightarrow> d \<in> set (v_docs s1) \<longleftrightarrow> d \<in> set (v_docs s)"
    and "\<And>d. v = Some d \<Longrightarrow> s1 = s \<and> d \<in> set (v_docs s) \<and> docKey d = (u, n, p) \<and> d_type d = k"
    and "\<And>d. v = None \<Longrightarrow> d \<in> set (v_docs s1) \<Longrightarrow> docKey d \<noteq> (u, n, p)"
    by blast+
qed

lemma createNode_props:
  assumes ok: "rankedStore r s1" and vp: "validParent p s1"
    and free: "\<And>d. d \<in> set (v_docs s1) \<Longrightarrow> docKey d \<noteq> (u, n, p)"
    and r: "createNode clk u n k c p s1 = (d, s2)"
  shows "rankedStore r s2" and "v_nextId s2 = Suc (v_nextId s1)"
    and "set (v_docs s2) = insert d (set (v_docs s1))"
    and "d_id d = v_nextId s1" and "docKey d = (u, n, p)" and "d_type d = k" and "d_content d = c"
proof -
  have d: "d = \<lparr>d_id = v_nextId s1, d_userId = u, d_name = n, d_type = k, d_content = c,
                 d_parentId = p, d_isTemplate = False, d_sharedWith = [],
                 d_updatedAt = clk (Suc (v_tick s1))\<rparr>"
    and s2: "v_docs s2 = v_docs s1 @ [d]" "v_nextId s2 = Suc (v_nextId s1)"
    using r by (auto simp: createNode_def newDate_def Let_def)
  show "v_nextId s2 = Suc (v_nextId s1)" by (rule s2(2))
  show st: "set (v_docs s2) = insert d (set (v_docs s1))" using s2(1) by simp
  show i: "d_id d = v_nextId s1" and key: "docKey d = (u, n, p)" and "d_type d = k" and "d_content d = c"
    using d by (simp_all add: docKey_def)
  have pd: "d_parentId d = p" using d by simp
  have nid: "d_id d \<notin> d_id ` set (v_docs s1)"
  proof
    assume "d_id d \<in> d_id ` set (v_docs s1)"
    then obtain x where "x \<in> set (v_docs s1)" "d_id x = d_id d" by (metis imageE)
    then show False using ranked_bound[OF ok, of x] i by simp
  qed
  have nkey: "docKey d \<notin> docKey ` set (v_docs s1)"
  proof
    assume "docKey d \<in> docKey ` set (v_docs s1)"
    then obtain x where "x \<in> set (v_docs s1)" "docKey x = docKey d" by (metis imageE)
    then show False using free[of x] key by simp
  qed
  show "rankedStore r s2"
  proof (rule rankedStoreI)
    show "distinct (map d_id (v_docs s2))" using s2(1) ranked_ids[OF ok] nid by simp
    show "distinct (map docKey (v_docs s2))" using s2(1) ranked_keys[OF ok] nkey by simp
  next
    fix x assume "x \<in> set (v_docs s2)"
    then consider "x = d" | "x \<in> set (v_docs s1)" using st by blast
    then show "d_id x < v_nextId s2"
    proof cases
      case 1 then show ?thesis using i s2(2) by simp
    next
      case 2 then show ?thesis using ranked_bound[OF ok 2] s2(2) by simp
    qed
  next
    fix x assume "x \<in> set (v_docs s2)"
    then consider "x = d" | "x \<in> set (v_docs s1)" using st by blast
    then show "rk r (d_parentId x) < rk r (Some (d_id x))"
    proof cases
      case 1 then show ?thesis using i pd rk_validParent[OF ok vp, of "v_nextId s1"] by simp
    next
      case 2 then show ?thesis using ranked_parent[OF ok 2] by simp
    qed
  next
    fix j i assume "v_nextId s2 \<le> j" "i < j"
    then show "r i < r j" using ranked_fresh[OF ok, of j i] s2(2) by simp
  qed
qed

lemma ranked_cong:
  "v_docs s' = v_docs s \<Longrightarrow> v_nextId s' = v_nextId s \<Longrightarrow> rankedStore r s' = rankedStore r s"
  by (simp add: rankedStore_def)

lemma origin_same_docs:
  "v_docs s' = v_docs s \<Longrightarrow> origin s s'"
  unfolding origin_def by metis

lemma saveDoc_props:
  assumes ok: "rankedStore r s" and d: "d \<in> set (v_docs s)"
    and same: "d_id d' = d_id d" "docKey d' = docKey d" "d_type d' = d_type d"
    and s': "v_docs s' = saveDoc d' (v_docs s)" "v_nextId s' = v_nextId s"
  shows "rankedStore r s'" and "origin s s'"
    and "set (v_docs s') = insert d' (set (v_docs s) - {d})"
proof -
  show st: "set (v_docs s') = insert d' (set (v_docs s) - {d})"
    using set_saveDoc[OF ranked_ids[OF ok] d same(1)] s'(1) by simp
  have pd: "d_parentId d' = d_parentId d" using same(2) by (simp add: docKey_def)
  show "rankedStore r s'"
  proof (rule rankedStoreI)
    show "distinct (map d_id (v_docs s'))"
      using map_saveDoc[OF ranked_ids[OF ok] d same(1), of d_id] same(1) s'(1) ranked_ids[OF ok] by simp
    show "distinct (map docKey (v_docs s'))"
      using map_saveDoc[OF ranked_ids[OF ok] d same(1), of docKey] same(2) s'(1) ranked_keys[OF ok] by simp
  next
    fix x assume "x \<in> set (v_docs s')"
    then consider "x = d'" | "x \<in> set (v_docs s)" using st by blast
    then show "d_id x < v_nextId s'"
      using ranked_bound[OF ok] d same(1) s'(2) by cases simp_all
  next
    fix x assume "x \<in> set (v_docs s')"
    then consider "x = d'" | "x \<in> set (v_docs s)" using st by blast
    then show "rk r (d_parentId x) < rk r (Some (d_id x))"
      using ranked_parent[OF ok] d same(1) pd by cases simp_all
  next
    fix j i assume "v_nextId s' \<le> j" "i < j"
    then show "r i < r j" using ranked_fresh[OF ok, of j i] s'(2) by simp
  qed
  show "origin s s'"
    unfolding origin_def
  proof
    fix x assume "x \<in> set (v_docs s')"
    then consider "x = d'" | "x \<in> set (v_docs s)" using st by blast
    then show "v_nextId s \<le> d_id x \<or> (\<exists>d\<in>set (v_docs s). d_id d = d_id x \<and> docKey d = docKey x \<and> d_type d = d_type x)"
    proof cases
      case 1
      then show ?thesis using d same by metis
    next
      case 2
      then show ?thesis by metis
    qed
  qed
qed

lemma ensureFolder_props:
  assumes ok: "rankedStore r s" and vp: "validParent p s"
    and r: "ensureFolder clk u n p s = (d, s')"
  shows "rankedStore r s'" and "v_nextId s \<le> v_nextId s'" and "origin s s'"
    and "\<And>x. docKey x \<noteq> (u, n, p) \<Longrightarrow> x \<in> set (v_docs s') \<longleftrightarrow> x \<in> set (v_docs s)"
    and "d \<in> set (v_docs s')" and "docKey d = (u, n, p)" and "d_type d = Folder"
proof -
  obtain v s1 where dw: "dropWrongKind Folder (findOne (v_docs s) u n p) s = (v, s1)" by force
  note dp = dropWrongKind_props[OF ok dw]
  have "rankedStore r s' \<and> v_nextId s \<le> v_nextId s' \<and> origin s s'
      \<and> (\<forall>x. docKey x \<noteq> (u, n, p) \<longrightarrow> (x \<in> set (v_docs s') \<longleftrightarrow> x \<in> set (v_docs s)))
      \<and> d \<in> set (v_docs s') \<and> docKey d = (u, n, p) \<and> d_type d = Folder"
  proof (cases v)
    case (Some d0)
    then have "d = d0" "s' = s1" using r dw by (simp_all add: ensureFolder_def)
    then show ?thesis using dp(6)[OF Some] ok origin_refl by simp
  next
    case None
    then have c: "createNode clk u n Folder [] p s1 = (d, s')" using r dw by (simp add: ensureFolder_def)
    have vp1: "validParent p s1" using vp dp(2) by (simp add: validParent_def)
    note cp = createNode_props[OF dp(1) vp1 dp(7)[OF None] c]
    have o: "origin s s'"
      unfolding origin_def
    proof
      fix x assume "x \<in> set (v_docs s')"
      then consider "x = d" | "x \<in> set (v_docs s)" using cp(3) dp(4) by blast
      then show "v_nextId s \<le> d_id x \<or> (\<exists>d\<in>set (v_docs s). d_id d = d_id x \<and> docKey d = docKey x \<and> d_type d = d_type x)"
      proof cases
        case 1 then show ?thesis using cp(4) dp(2) by simp
      next
        case 2 then show ?thesis by metis
      qed
    qed
    have fr: "x \<in> set (v_docs s') \<longleftrightarrow> x \<in> set (v_docs s)" if "docKey x \<noteq> (u, n, p)" for x
    proof -
      have "x \<noteq> d" using that cp(5) by metis
      then have "x \<in> set (v_docs s') \<longleftrightarrow> x \<in> set (v_docs s1)" using cp(3) by simp
      then show ?thesis using dp(5)[OF that] by simp
    qed
    show ?thesis using cp o fr dp(2) by simp
  qed
  then show "rankedStore r s'" and "v_nextId s \<le> v_nextId s'" and "origin s s'"
    and "\<And>x. docKey x \<noteq> (u, n, p) \<Longrightarrow> x \<in> set (v_docs s') \<longleftrightarrow> x \<in> set (v_docs s)"
    and "d \<in> set (v_docs s')" and "docKey d = (u, n, p)" and "d_type d = Folder"
    by blast+
qed

lemma uploadFile_props:
  assumes ok: "rankedStore r s" and vp: "validParent p s"
    and r: "s' = uploadFile clk u n p c s"
  shows "rankedStore r s'" and "v_nextId s \<le> v_nextId s'" and "origin s s'"
    and "\<And>x. docKey x \<noteq> (u, n, p) \<Longrightarrow> x \<in> set (v_docs s') \<longleftrightarrow> x \<in> set (v_docs s)"
    and "\<exists>d \<in> set (v_docs s'). docKey d = (u, n, p) \<and> d_type d = File \<and> d_content d = c"
proof -
  obtain v s1 where dw: "dropWrongKind File (findOne (v_docs s) u n p) s = (v, s1)" by force
  note dp = dropWrongKind_props[OF ok dw]
  have "rankedStore r s' \<and> v_nextId s \<le> v_nextId s' \<and> origin s s'
      \<and> (\<forall>x. docKey x \<noteq> (u, n, p) \<longrightarrow> (x \<in> set (v_docs s') \<longleftrightarrow> x \<in> set (v_docs s)))
      \<and> (\<exists>d \<in> set (v_docs s'). docKey d = (u, n, p) \<and> d_type d = File \<and> d_content d = c)"
  proof (cases v)
    case None
    obtain d where c: "createNode clk u n File c p s1 = (d, s')"
      using r dw None by (cases "createNode clk u n File c p s1") (simp add: uploadFile_def)
    have vp1: "validParent p s1" using vp dp(2) by (simp add: validParent_def)
    note cp = createNode_props[OF dp(1) vp1 dp(7)[OF None] c]
    have o: "origin s s'"
      unfolding origin_def
    proof
      fix x assume "x \<in> set (v_docs s')"
      then consider "x = d" | "x \<in> set (v_docs s)" using cp(3) dp(4) by blast
      then show "v_nextId s \<le> d_id x \<or> (\<exists>d\<in>set (v_docs s). d_id d = d_id x \<and> docKey d = docKey x \<and> d_type d = d_type x)"
      proof cases
        case 1 then show ?thesis using cp(4) dp(2) by simp
      next
        case 2 then show ?thesis by metis
      qed
    qed
    have fr: "x \<in> set (v_docs s') \<longleftrightarrow> x \<in> set (v_docs s)" if "docKey x \<noteq> (u, n, p)" for x
    proof -
      have "x \<noteq> d" using that cp(5) by metis
      then have "x \<in> set (v_docs s') \<longleftrightarrow> x \<in> set (v_docs s1)" using cp(3) by simp
      then show ?thesis using dp(5)[OF that] by simp
    qed
    have "d \<in> set (v_docs s')" using cp(3) by simp
    then have ex: "\<exists>d \<in> set (v_docs s'). docKey d = (u, n, p) \<and> d_type d = File \<and> d_content d = c"
      using cp(5,6,7) by metis
    show ?thesis using cp(1,2) o fr ex dp(2) by simp
  next
    case (Some d)
    from dp(6)[OF Some] have s1: "s1 = s" and din: "d \<in> set (v_docs s)"
      and key: "docKey d = (u, n, p)" and ty: "d_type d = File" by simp_all
    consider (same) "v_docs s' = v_docs s" "v_nextId s' = v_nextId s" "d_content d = c"
      | (upd) d' where "v_docs s' = saveDoc d' (v_docs s)" "v_nextId s' = v_nextId s"
          "d_id d' = d_id d" "docKey d' = docKey d" "d_type d' = d_type d" "d_content d' = c"
    proof (cases "d_content d \<noteq> c")
      case True
      let ?d' = "d\<lparr>d_content := c, d_updatedAt := clk (Suc (v_tick s))\<rparr>"
      have "v_docs s' = saveDoc ?d' (v_docs s)" "v_nextId s' = v_nextId s"
        using r dw Some s1 True by (simp_all add: uploadFile_def save_def newDate_def Let_def)
      moreover have "d_id ?d' = d_id d" "docKey ?d' = docKey d" "d_type ?d' = d_type d" "d_content ?d' = c"
        by (simp_all add: docKey_def)
      ultimately show ?thesis using upd by blast
    next
      case eq: False
      show ?thesis
      proof (cases "clk (v_tick s) - d_updatedAt d > 1000 \<and> clk (Suc (v_tick s)) \<noteq> d_updatedAt d")
        case True
        let ?d' = "d\<lparr>d_updatedAt := clk (Suc (Suc (v_tick s)))\<rparr>"
        have "v_docs s' = saveDoc ?d' (v_docs s)" "v_nextId s' = v_nextId s"
          using r dw Some s1 eq True by (simp_all add: uploadFile_def save_def newDate_def Let_def)
        moreover have "d_id ?d' = d_id d" "docKey ?d' = docKey d" "d_type ?d' = d_type d" "d_content ?d' = c"
          using eq by (simp_all add: docKey_def)
        ultimately show ?thesis using upd by blast
      next
        case False
        have "v_docs s' = v_docs s" "v_nextId s' = v_nextId s"
          using r dw Some s1 eq False by (auto simp: uploadFile_def save_def newDate_def Let_def)
        then show ?thesis using same eq by simp
      qed
    qed
    then show ?thesis
    proof cases
      case same
      have "rankedStore r s'" using ranked_cong[OF same(1,2)] ok by simp
      moreover have "origin s s'" using origin_same_docs[OF same(1)] .
      moreover have "\<exists>d \<in> set (v_docs s'). docKey d = (u, n, p) \<and> d_type d = File \<and> d_content d = c"
        using din key ty same(1,3) by metis
      ultimately show ?thesis using same(1,2) by simp
    next
      case upd
      note sp = saveDoc_props[OF ok din upd(3,4,5) upd(1,2)]
      have fr: "x \<in> set (v_docs s') \<longleftrightarrow> x \<in> set (v_docs s)" if "docKey x \<noteq> (u, n, p)" for x
      proof -
        have "x \<noteq> d'" "x \<noteq> d" using that key upd(4) by metis+
        then show ?thesis using sp(3) by simp
      qed
      have "d' \<in> set (v_docs s')" using sp(3) by simp
      then have ex: "\<exists>d \<in> set (v_docs s'). docKey d = (u, n, p) \<and> d_type d = File \<and> d_content d = c"
        using upd(4,5,6) key ty by metis
      show ?thesis using sp(1,2) fr ex upd(2) by simp
    qed
  qed
  then show "rankedStore r s'" and "v_nextId s \<le> v_nextId s'" and "origin s s'"
    and "\<And>x. docKey x \<noteq> (u, n, p) \<Longrightarrow> x \<in> set (v_docs s') \<longleftrightarrow> x \<in> set (v_docs s)"
    and "\<exists>d \<in> set (v_docs s'). docKey d = (u, n, p) \<and> d_type d = File \<and> d_content d = c"
    by blast+
qed

lemma step_frame:
  assumes "\<And>x. docKey x \<noteq> (u, n, p) \<Longrightarrow> x \<in> set (v_docs s') \<longleftrightarrow> x \<in> set (v_docs s)"
    and "(n, p) \<notin> K"
  shows "frame u K s s'"
  unfolding frame_def
proof (intro allI impI)
  fix d :: doc assume a: "d_userId d \<noteq> u \<or> (d_name d, d_parentId d) \<in> K"
  have "docKey d \<noteq> (u, n, p)"
  proof
    assume "docKey d = (u, n, p)"
    then have "d_userId d = u" "(d_name d, d_parentId d) = (n, p)" by (simp_all add: docKey_def)
    then show False using a assms(2) by metis
  qed
  then show "d \<in> set (v_docs s') \<longleftrightarrow> d \<in> set (v_docs s)" by (rule assms(1))
qed

lemma frame_refl: "frame u K s s"
  by (simp add: frame_def)

lemma frame_trans: "frame u K s s1 \<Longrightarrow> frame u K s1 s2 \<Longrightarrow> frame u K s s2"
  unfolding frame_def by metis

lemma closedFor_mono:
  assumes c: "closedFor u K p N s" and o: "origin s s1" and le: "v_nextId s \<le> v_nextId s1"
  shows "closedFor u K p N s1"
  unfolding closedFor_def
proof (intro conjI ballI allI impI)
  fix n assume "n \<in> N" then show "(n, p) \<notin> K" using c by (simp add: closedFor_def)
next
  fix j n assume "v_nextId s1 \<le> j"
  then have "v_nextId s \<le> j" using le by simp
  then show "(n, Some j) \<notin> K" using c by (simp add: closedFor_def)
next
  fix d n assume d: "d \<in> set (v_docs s1)" and h: "d_userId d = u \<and> (d_name d, d_parentId d) \<notin> K"
  from o d consider (new) "v_nextId s \<le> d_id d"
    | (old) d0 where "d0 \<in> set (v_docs s)" "d_id d0 = d_id d" "docKey d0 = docKey d"
    unfolding origin_def by blast
  then show "(n, Some (d_id d)) \<notin> K"
  proof cases
    case new
    then show ?thesis using c by (simp add: closedFor_def)
  next
    case old
    have "d_userId d0 = u" "(d_name d0, d_parentId d0) \<notin> K"
      using old(3) h by (simp_all add: docKey_def)
    then have "(n, Some (d_id d0)) \<notin> K" using c old(1) by (simp add: closedFor_def)
    then show ?thesis using old(2) by simp
  qed
qed

lemma closedFor_subset: "closedFor u K p N s \<Longrightarrow> N' \<subseteq> N \<Longrightarrow> closedFor u K p N' s"
  unfolding closedFor_def by blast

lemma closedFor_child:
  assumes c: "closedFor u K p N s" and n: "n \<in> N" and d: "d \<in> set (v_docs s)"
    and key: "docKey d = (u, n, p)"
  shows "closedFor u K (Some (d_id d)) N' s"
proof -
  have "(n, p) \<notin> K" using c n by (simp add: closedFor_def)
  moreover have "d_userId d = u" "(d_name d, d_parentId d) = (n, p)" using key by (simp_all add: docKey_def)
  ultimately have "\<forall>m. (m, Some (d_id d)) \<notin> K" using c d by (simp add: closedFor_def)
  then show ?thesis using c by (simp add: closedFor_def)
qed

lemma slots_cases:
  "\<forall>d \<in> set docs. rk r (d_parentId d) < rk r (Some (d_id d)) \<Longrightarrow>
   (m, q) \<in> slots u es cur p base docs \<Longrightarrow> (q = p \<and> m \<in> fst ` set es) \<or> rk r p < rk r q"
proof (induction u es cur p base docs rule: slots.induct)
  case (1 userId currentHostDir vfsParentId base docs)
  then show ?case by simp
next
  case (2 userId name entry entries cur p base docs)
  note R = "2.prems"(1)
  consider (rest) "(m, q) \<in> slots userId entries cur p base docs"
    | (self) "\<not> skippedEntry cur base name" "(m, q) = (name, p)"
    | (child) ch d where "\<not> skippedEntry cur base name" "entry = HDir ch"
        "findOne docs userId name p = Some d"
        "(m, q) \<in> slots userId ch (path_join [cur, name]) (Some (d_id d)) base docs"
    using "2.prems"(2) by (auto split: if_splits hostEntry.splits option.splits)
  then show ?case
  proof cases
    case rest
    from "2.IH"(2)[OF R rest] show ?thesis by auto
  next
    case self
    then show ?thesis by simp
  next
    case child
    from "2.IH"(1)[OF child(1) child(2) child(3) R child(4)]
    have "q = Some (d_id d) \<or> rk r (Some (d_id d)) < rk r q" by blast
    moreover from findOne_SomeD[OF child(3)] have "d \<in> set docs" "d_parentId d = p"
      by (simp_all add: docKey_def)
    then have "rk r p < rk r (Some (d_id d))" using R by metis
    ultimately show ?thesis by auto
  qed
qed

lemma slots_owner:
  "\<forall>d \<in> set docs. rk r (d_parentId d) < rk r (Some (d_id d)) \<Longrightarrow>
   (m, q) \<in> slots u es cur p base docs \<Longrightarrow> q \<noteq> p \<Longrightarrow>
   \<exists>d \<in> set docs. q = Some (d_id d) \<and> d_userId d = u
       \<and> (d_name d, d_parentId d) \<in> slots u es cur p base docs"
proof (induction u es cur p base docs rule: slots.induct)
  case (1 userId currentHostDir vfsParentId base docs)
  then show ?case by simp
next
  case (2 userId name entry entries cur p base docs)
  note R = "2.prems"(1)
  consider (rest) "(m, q) \<in> slots userId entries cur p base docs"
    | (child) ch d where "\<not> skippedEntry cur base name" "entry = HDir ch"
        "findOne docs userId name p = Some d"
        "(m, q) \<in> slots userId ch (path_join [cur, name]) (Some (d_id d)) base docs"
    using "2.prems"(2,3) by (auto split: if_splits hostEntry.splits option.splits)
  then show ?case
  proof cases
    case rest
    from "2.IH"(2)[OF R rest "2.prems"(3)] show ?thesis by auto
  next
    case child
    from findOne_SomeD[OF child(3)] have d: "d \<in> set docs" "d_userId d = userId"
      "d_name d = name" "d_parentId d = p"
      by (simp_all add: docKey_def)
    have sub: "slots userId ch (path_join [cur, name]) (Some (d_id d)) base docs
        \<subseteq> slots userId ((name, entry) # entries) cur p base docs"
      using child(1,2,3) by auto
    have self: "(name, p) \<in> slots userId ((name, entry) # entries) cur p base docs"
      using child(1,2) by simp
    show ?thesis
    proof (cases "q = Some (d_id d)")
      case True
      then show ?thesis using d self by metis
    next
      case False
      from "2.IH"(1)[OF child(1) child(2) child(3) R child(4) False]
      obtain d' where "d' \<in> set docs" "q = Some (d_id d')" "d_userId d' = userId"
        "(d_name d', d_parentId d') \<in> slots userId ch (path_join [cur, name]) (Some (d_id d)) base docs"
        by blast
      then show ?thesis using sub by blast
    qed
  qed
qed

lemma synced_transfer:
  "distinct (map docKey docs2) \<Longrightarrow>
   (\<And>d. d_userId d = u \<Longrightarrow> (d_name d, d_parentId d) \<in> slots u es cur p base docs
         \<Longrightarrow> d \<in> set docs \<Longrightarrow> d \<in> set docs2) \<Longrightarrow>
   synced u es cur p base docs \<Longrightarrow> synced u es cur p base docs2"
proof (induction u es cur p base docs rule: synced.induct)
  case (1 userId currentHostDir vfsParentId base docs)
  then show ?case by simp
next
  case (2 userId name entry entries cur p base docs)
  note dk = "2.prems"(1)
  have keep: "d \<in> set docs2"
    if "d_userId d = userId" "(d_name d, d_parentId d) \<in> slots userId ((name, entry) # entries) cur p base docs"
      "d \<in> set docs" for d
    using "2.prems"(2)[OF that] .
  have rest: "synced userId entries cur p base docs2"
  proof (rule "2.IH"(2)[OF dk])
    show "synced userId entries cur p base docs" using "2.prems"(3) by simp
  next
    fix d assume "d_userId d = userId" "(d_name d, d_parentId d) \<in> slots userId entries cur p base docs"
      "d \<in> set docs"
    then show "d \<in> set docs2" using keep by simp
  qed
  show ?case
  proof (cases "skippedEntry cur base name")
    case True
    then show ?thesis using rest by simp
  next
    case ns: False
    show ?thesis
    proof (cases entry)
      case HOther
      then show ?thesis using rest ns by simp
    next
      case (HFile c)
      from "2.prems"(3) ns HFile obtain d where f: "findOne docs userId name p = Some d"
        and t: "d_type d = File" "d_content d = c"
        by (auto split: option.splits)
      from findOne_SomeD[OF f] have d: "d \<in> set docs" "docKey d = (userId, name, p)" by simp_all
      then have "d_userId d = userId" "(d_name d, d_parentId d) = (name, p)" by (simp_all add: docKey_def)
      then have "d \<in> set docs2" using keep[of d] d(1) ns HFile by simp
      then have "findOne docs2 userId name p = Some d" using findOne_Some_iff[OF dk] d(2) by simp
      then show ?thesis using rest ns HFile t by simp
    next
      case (HDir ch)
      from "2.prems"(3) ns HDir obtain d where f: "findOne docs userId name p = Some d"
        and t: "d_type d = Folder"
        and sy: "synced userId ch (path_join [cur, name]) (Some (d_id d)) base docs"
        by (auto split: option.splits)
      from findOne_SomeD[OF f] have d: "d \<in> set docs" "docKey d = (userId, name, p)" by simp_all
      then have "d_userId d = userId" "(d_name d, d_parentId d) = (name, p)" by (simp_all add: docKey_def)
      then have "d \<in> set docs2" using keep[of d] d(1) ns HDir by simp
      then have f2: "findOne docs2 userId name p = Some d" using findOne_Some_iff[OF dk] d(2) by simp
      have "synced userId ch (path_join [cur, name]) (Some (d_id d)) base docs2"
      proof (rule "2.IH"(1)[OF ns HDir f dk _ sy])
        fix x assume "d_userId x = userId"
          "(d_name x, d_parentId x) \<in> slots userId ch (path_join [cur, name]) (Some (d_id d)) base docs"
          "x \<in> set docs"
        then show "x \<in> set docs2" using keep[of x] ns HDir f by simp
      qed
      then show ?thesis using rest ns HDir t f2 by simp
    qed
  qed
qed

lemma closedFor_slots:
  assumes ok: "rankedStore r s" and vp: "validParent p s" and dis: "\<And>n. n \<in> N \<Longrightarrow> n \<notin> fst ` set es"
  shows "closedFor u (slots u es cur p base (v_docs s) \<union> {(m, q). rk r q < rk r p}) p N s"
proof -
  let ?S = "slots u es cur p base (v_docs s)"
  have R: "\<forall>d \<in> set (v_docs s). rk r (d_parentId d) < rk r (Some (d_id d))" using ranked_parent[OF ok] by blast
  have a: "(n, p) \<notin> ?S \<union> {(m, q). rk r q < rk r p}" if "n \<in> N" for n
  proof
    assume "(n, p) \<in> ?S \<union> {(m, q). rk r q < rk r p}"
    then have "(n, p) \<in> ?S" by simp
    from slots_cases[OF R this] show False using dis[OF that] by simp
  qed
  have b: "(n, Some j) \<notin> ?S \<union> {(m, q). rk r q < rk r p}" if "v_nextId s \<le> j" for n j
  proof
    assume h: "(n, Some j) \<in> ?S \<union> {(m, q). rk r q < rk r p}"
    have pj: "rk r p < rk r (Some j)" using rk_validParent[OF ok vp that] .
    then have "(n, Some j) \<in> ?S" using h by auto
    moreover have "Some j \<noteq> p" using pj by auto
    ultimately obtain d where "d \<in> set (v_docs s)" "Some j = Some (d_id d)"
      using slots_owner[OF R] by blast
    then show False using ranked_bound[OF ok, of d] that by simp
  qed
  have c: "(n, Some (d_id d)) \<notin> ?S \<union> {(m, q). rk r q < rk r p}"
    if "d \<in> set (v_docs s)" "d_userId d = u" "(d_name d, d_parentId d) \<notin> ?S \<union> {(m, q). rk r q < rk r p}" for d n
  proof
    assume h: "(n, Some (d_id d)) \<in> ?S \<union> {(m, q). rk r q < rk r p}"
    have "\<not> rk r (d_parentId d) < rk r p" using that(3) by simp
    then have "rk r p \<le> rk r (d_parentId d)" by simp
    then have pd: "rk r p < rk r (Some (d_id d))" using ranked_parent[OF ok that(1)] by simp
    then have "(n, Some (d_id d)) \<in> ?S" using h by auto
    moreover have "Some (d_id d) \<noteq> p" using pd by auto
    ultimately obtain d' where d': "d' \<in> set (v_docs s)" "Some (d_id d) = Some (d_id d')"
      "(d_name d', d_parentId d') \<in> ?S" using slots_owner[OF R] by blast
    then have "d' = d" using same_id_same_doc[OF ok d'(1) that(1)] by simp
    then show False using d'(3) that(3) by simp
  qed
  show ?thesis unfolding closedFor_def using a b c by blast
qed

lemma synced_cons:
  "synced u (x # es) cur p base docs
     = (synced u [x] cur p base docs \<and> synced u es cur p base docs)"
  by (cases x) simp

lemma validParent_mono: "validParent p s \<Longrightarrow> v_nextId s \<le> v_nextId s1 \<Longrightarrow> validParent p s1"
  by (cases p) (simp_all add: validParent_def)

lemma cons_step:
  assumes h1: "rankedStore r s1" and h2: "v_nextId s \<le> v_nextId s1" and h3: "origin s s1"
    and h4: "\<And>K. closedFor u K p (insert name (fst ` set es)) s \<Longrightarrow> frame u K s s1"
    and h5: "synced u [(name, entry)] cur p base (v_docs s1)"
    and vp: "validParent p s"
    and rest: "pushResult r u es cur p base s1 s2"
    and fresh: "name \<notin> fst ` set es"
  shows "pushResult r u ((name, entry) # es) cur p base s s2"
proof -
  have ok2: "rankedStore r s2" and le2: "v_nextId s1 \<le> v_nextId s2" and o2: "origin s1 s2"
    and f2: "\<And>K. closedFor u K p (fst ` set es) s1 \<Longrightarrow> frame u K s1 s2"
    and sy2: "synced u es cur p base (v_docs s2)"
    using rest by (simp_all add: pushResult_def)
  have vp1: "validParent p s1" using validParent_mono[OF vp h2] .
  have le: "v_nextId s \<le> v_nextId s2" using h2 le2 by simp
  have o: "origin s s2" using origin_trans[OF h3 o2 h2] .
  have fr: "frame u K s s2" if c: "closedFor u K p (fst ` set ((name, entry) # es)) s" for K
  proof -
    have c': "closedFor u K p (insert name (fst ` set es)) s" using c by simp
    have "frame u K s s1" using h4[OF c'] .
    moreover have "closedFor u K p (fst ` set es) s1"
      using closedFor_subset[OF closedFor_mono[OF c' h3 h2]] by blast
    ultimately show ?thesis using f2 frame_trans by blast
  qed
  let ?K1 = "slots u [(name, entry)] cur p base (v_docs s1) \<union> {(m, q). rk r q < rk r p}"
  have "closedFor u ?K1 p (fst ` set es) s1"
  proof (rule closedFor_slots[OF h1 vp1])
    fix n assume "n \<in> fst ` set es"
    then show "n \<notin> fst ` set [(name, entry)]" using fresh by auto
  qed
  then have fk: "frame u ?K1 s1 s2" by (rule f2)
  have "synced u [(name, entry)] cur p base (v_docs s2)"
  proof (rule synced_transfer[OF ranked_keys[OF ok2] _ h5])
    fix d assume "d_userId d = u"
      "(d_name d, d_parentId d) \<in> slots u [(name, entry)] cur p base (v_docs s1)"
      "d \<in> set (v_docs s1)"
    then show "d \<in> set (v_docs s2)" using fk unfolding frame_def by blast
  qed
  then have "synced u ((name, entry) # es) cur p base (v_docs s2)"
    using sy2 synced_cons[of u "(name, entry)" es] by simp
  then show ?thesis unfolding pushResult_def using ok2 le o fr by blast
qed

lemma pushResult_nil: "rankedStore r s \<Longrightarrow> pushResult r u [] cur p base s s"
  by (simp add: pushResult_def origin_refl frame_refl)

lemma closedFor_head: "closedFor u K p (insert name N) s \<Longrightarrow> (name, p) \<notin> K"
  by (simp add: closedFor_def)

lemma scan_main:
  "rankedStore r s \<Longrightarrow> validParent p s \<Longrightarrow> wfHost es \<Longrightarrow>
   pushResult r u es cur p base s (recursivelyScanHostAndUploadToVFS clk u es cur p base s)"
proof (induction clk u es cur p base s rule: recursivelyScanHostAndUploadToVFS.induct)
  case (1 clk userId currentHostDir vfsParentId base s)
  then show ?case by (simp add: pushResult_nil)
next
  case (2 clk u name entry es cur p base s)
  note ok = "2.prems"(1) and vp = "2.prems"(2)
  have fresh: "name \<notin> fst ` set es" and wfes: "wfHost es" using "2.prems"(3) by simp_all
  show ?case
  proof (cases "skippedEntry cur base name")
    case True
    have r: "recursivelyScanHostAndUploadToVFS clk u ((name, entry) # es) cur p base s
        = recursivelyScanHostAndUploadToVFS clk u es cur p base s" using True by simp
    have "synced u [(name, entry)] cur p base (v_docs s)" using True by simp
    from cons_step[OF ok _ origin_refl _ this vp "2.IH"(1)[OF True ok vp wfes] fresh]
    show ?thesis unfolding r by (simp add: frame_refl)
  next
    case ns: False
    show ?thesis
    proof (cases entry)
      case HOther
      have r: "recursivelyScanHostAndUploadToVFS clk u ((name, entry) # es) cur p base s
          = recursivelyScanHostAndUploadToVFS clk u es cur p base s" using ns HOther by simp
      have "synced u [(name, entry)] cur p base (v_docs s)" using HOther by simp
      from cons_step[OF ok _ origin_refl _ this vp "2.IH"(5)[OF ns HOther ok vp wfes] fresh]
      show ?thesis unfolding r by (simp add: frame_refl)
    next
      case (HFile c)
      define s1 where "s1 = uploadFile clk u name p c s"
      have r: "recursivelyScanHostAndUploadToVFS clk u ((name, entry) # es) cur p base s
          = recursivelyScanHostAndUploadToVFS clk u es cur p base s1"
        using ns HFile by (simp add: s1_def)
      note up = uploadFile_props[OF ok vp s1_def]
      have vp1: "validParent p s1" using validParent_mono[OF vp up(2)] .
      have h4: "frame u K s s1" if "closedFor u K p (insert name (fst ` set es)) s" for K
        using step_frame[of u name p s1 s K] up(4) closedFor_head[OF that] by blast
      from up(5) obtain d where d: "d \<in> set (v_docs s1)" "docKey d = (u, name, p)"
        "d_type d = File" "d_content d = c" by blast
      then have "findOne (v_docs s1) u name p = Some d"
        using findOne_Some_iff[OF ranked_keys[OF up(1)]] by simp
      then have h5: "synced u [(name, entry)] cur p base (v_docs s1)"
        using ns HFile d by simp
      have rest: "pushResult r u es cur p base s1 (recursivelyScanHostAndUploadToVFS clk u es cur p base s1)"
        using "2.IH"(2)[OF ns HFile up(1)[unfolded s1_def] vp1[unfolded s1_def] wfes] by (simp add: s1_def)
      from cons_step[OF up(1) up(2) up(3) h4 h5 vp rest fresh]
      show ?thesis unfolding r .
    next
      case (HDir ch)
      have wfch: "wfHost ch" using "2.prems"(3) HDir by simp
      obtain d sa where ef: "ensureFolder clk u name p s = (d, sa)" by force
      define cur' where "cur' = path_join [cur, name]"
      define sb where "sb = recursivelyScanHostAndUploadToVFS clk u ch cur' (Some (d_id d)) base sa"
      have r: "recursivelyScanHostAndUploadToVFS clk u ((name, entry) # es) cur p base s
          = recursivelyScanHostAndUploadToVFS clk u es cur p base sb"
        using ns HDir ef by (simp add: sb_def cur'_def)
      note ep = ensureFolder_props[OF ok vp ef]
      have vpa: "validParent (Some (d_id d)) sa"
        using ranked_bound[OF ep(1) ep(5)] by (simp add: validParent_def)
      have ch: "pushResult r u ch cur' (Some (d_id d)) base sa sb"
        using "2.IH"(3)[OF ns HDir ef[symmetric] ep(1) vpa wfch] by (simp add: sb_def cur'_def)
      then have okb: "rankedStore r sb" and leb: "v_nextId sa \<le> v_nextId sb" and ob: "origin sa sb"
        and fb: "\<And>K. closedFor u K (Some (d_id d)) (fst ` set ch) sa \<Longrightarrow> frame u K sa sb"
        and syb: "synced u ch cur' (Some (d_id d)) base (v_docs sb)"
        by (simp_all add: pushResult_def)
      have le: "v_nextId s \<le> v_nextId sb" using ep(2) leb by simp
      have o: "origin s sb" using origin_trans[OF ep(3) ob ep(2)] .
      have h4: "frame u K s sb" if c: "closedFor u K p (insert name (fst ` set es)) s" for K
      proof -
        have "frame u K s sa"
          using step_frame[of u name p sa s K] ep(4) closedFor_head[OF c] by blast
        moreover have "closedFor u K p (insert name (fst ` set es)) sa"
          using closedFor_mono[OF c ep(3) ep(2)] .
        then have "closedFor u K (Some (d_id d)) (fst ` set ch) sa"
          using closedFor_child[OF _ _ ep(5) ep(6)] by blast
        then have "frame u K sa sb" by (rule fb)
        ultimately show ?thesis using frame_trans by blast
      qed
      have "closedFor u (slots u [] cur' (Some (d_id d)) base (v_docs sa) \<union> {(m, q). rk r q < rk r (Some (d_id d))})
              (Some (d_id d)) (fst ` set ch) sa"
        by (rule closedFor_slots[OF ep(1) vpa]) simp
      then have "frame u (slots u [] cur' (Some (d_id d)) base (v_docs sa) \<union> {(m, q). rk r q < rk r (Some (d_id d))}) sa sb"
        by (rule fb)
      moreover have "rk r (d_parentId d) < rk r (Some (d_id d))" using ranked_parent[OF ep(1) ep(5)] .
      ultimately have "d \<in> set (v_docs sb)" using ep(5) unfolding frame_def by blast
      then have "findOne (v_docs sb) u name p = Some d"
        using findOne_Some_iff[OF ranked_keys[OF okb]] ep(6) by simp
      then have h5: "synced u [(name, entry)] cur p base (v_docs sb)"
        using ns HDir ep(7) syb by (simp add: cur'_def)
      have vpb: "validParent p sb" using validParent_mono[OF vp le] .
      have rest: "pushResult r u es cur p base sb (recursivelyScanHostAndUploadToVFS clk u es cur p base sb)"
        using "2.IH"(4)[OF ns HDir ef[symmetric] okb[unfolded sb_def cur'_def] vpb[unfolded sb_def cur'_def] wfes]
        by (simp add: sb_def cur'_def)
      from cons_step[OF okb le o h4 h5 vp rest fresh]
      show ?thesis unfolding r .
    qed
  qed
qed

lemma parentRel_iff:
  "(q, i) \<in> parentRel docs \<longleftrightarrow> (\<exists>d \<in> set docs. d_parentId d = Some q \<and> d_id d = i)"
  by (simp add: parentRel_def)

lemma finite_parentRel: "finite (parentRel docs)"
proof -
  have "parentRel docs \<subseteq> (\<lambda>d. (the (d_parentId d), d_id d)) ` set docs"
  proof
    fix x assume "x \<in> parentRel docs"
    then obtain q i where x: "x = (q, i)" and "(q, i) \<in> parentRel docs" by (cases x) simp
    then obtain d where d: "d \<in> set docs" "d_parentId d = Some q" "d_id d = i"
      unfolding parentRel_iff by blast
    then have e: "x = (the (d_parentId d), d_id d)" using x by simp
    show "x \<in> (\<lambda>d. (the (d_parentId d), d_id d)) ` set docs"
      by (rule image_eqI[where x = d]) (fact e, fact d(1))
  qed
  then show ?thesis by (rule finite_surj[OF finite_set])
qed

lemma acyclic_rank:
  assumes fin: "finite R" and ac: "acyclic R"
  shows "\<exists>f :: 'a \<Rightarrow> nat. (\<forall>x y. (x, y) \<in> R \<longrightarrow> f x < f y) \<and> (\<forall>x. f x \<le> card (Domain R))"
proof -
  define f where "f y = card {z. (z, y) \<in> R\<^sup>+}" for y
  have sub: "{z. (z, y) \<in> R\<^sup>+} \<subseteq> Domain R" for y
  proof
    fix z assume "z \<in> {z. (z, y) \<in> R\<^sup>+}"
    then have "(z, y) \<in> R\<^sup>+" by simp
    then show "z \<in> Domain R" by (induction rule: converse_trancl_induct) auto
  qed
  have fd: "finite (Domain R)" using fin by (rule finite_Domain)
  have finy: "finite {z. (z, y) \<in> R\<^sup>+}" for y using finite_subset[OF sub fd] .
  have lt: "f x < f y" if xy: "(x, y) \<in> R" for x y
  proof -
    have "{z. (z, x) \<in> R\<^sup>+} \<subseteq> {z. (z, y) \<in> R\<^sup>+}"
      using xy by (auto intro: trancl_into_trancl)
    moreover have "x \<in> {z. (z, y) \<in> R\<^sup>+}" using xy by auto
    moreover have "x \<notin> {z. (z, x) \<in> R\<^sup>+}" using ac by (simp add: acyclic_def)
    ultimately have "{z. (z, x) \<in> R\<^sup>+} \<subset> {z. (z, y) \<in> R\<^sup>+}" by blast
    then show ?thesis unfolding f_def using psubset_card_mono[OF finy] by blast
  qed
  have le: "f x \<le> card (Domain R)" for x unfolding f_def using card_mono[OF fd sub] .
  have "(\<forall>x y. (x, y) \<in> R \<longrightarrow> f x < f y) \<and> (\<forall>x. f x \<le> card (Domain R))"
    using lt le by simp
  then show ?thesis by (rule exI[where x = f])
qed

lemma storeOk_ranked:
  assumes ok: "storeOk s"
  shows "\<exists>r. rankedStore r s"
proof -
  let ?R = "parentRel (v_docs s)"
  have ac: "acyclic ?R" using ok by (simp add: storeOk_def)
  from acyclic_rank[OF finite_parentRel ac] obtain f :: "nat \<Rightarrow> nat" where
    f1: "\<And>x y. (x, y) \<in> ?R \<Longrightarrow> f x < f y" and f2: "\<And>x. f x \<le> card (Domain ?R)" by blast
  define M where "M = Suc (card (Domain ?R))"
  define r where "r i = (if i < v_nextId s then f i else M + i)" for i
  have "rankedStore r s"
  proof (rule rankedStoreI)
    show "distinct (map d_id (v_docs s))" "distinct (map docKey (v_docs s))"
      using ok by (simp_all add: storeOk_def)
  next
    fix d assume "d \<in> set (v_docs s)"
    then show "d_id d < v_nextId s" using ok by (simp add: storeOk_def)
  next
    fix d assume d: "d \<in> set (v_docs s)"
    then have b: "d_id d < v_nextId s" and vp: "validParent (d_parentId d) s"
      using ok by (simp_all add: storeOk_def)
    show "rk r (d_parentId d) < rk r (Some (d_id d))"
    proof (cases "d_parentId d")
      case None
      then show ?thesis by simp
    next
      case (Some q)
      then have q: "q < v_nextId s" using vp by (simp add: validParent_def)
      have "(q, d_id d) \<in> ?R" unfolding parentRel_iff using d Some by blast
      from f1[OF this] show ?thesis using Some q b by (simp add: r_def)
    qed
  next
    fix j i assume j: "v_nextId s \<le> j" and i: "i < j"
    show "r i < r j"
    proof (cases "i < v_nextId s")
      case True
      have "f i < M" using f2[of i] by (simp add: M_def)
      then show ?thesis using True j by (simp add: r_def)
    next
      case False
      then show ?thesis using j i by (simp add: r_def)
    qed
  qed
  then show ?thesis by (rule exI[where x = r])
qed

lemma ranked_acyclic:
  assumes ok: "rankedStore r s"
  shows "acyclic (parentRel (v_docs s))"
proof -
  have "acyclic ((parentRel (v_docs s))\<inverse>)"
  proof (rule acyclicI_order[where f = r])
    fix a b assume "(a, b) \<in> (parentRel (v_docs s))\<inverse>"
    then have "(b, a) \<in> parentRel (v_docs s)" by simp
    then obtain d where d: "d \<in> set (v_docs s)" "d_parentId d = Some b" "d_id d = a"
      unfolding parentRel_iff by blast
    from ranked_parent[OF ok d(1)] show "r b < r a" using d by simp
  qed
  then show ?thesis by (simp only: acyclic_converse)
qed

lemma strip_fields:
  assumes "stripTime d = stripTime d'"
  shows "d_id d = d_id d'" "d_userId d = d_userId d'" "d_name d = d_name d'"
    "d_type d = d_type d'" "d_content d = d_content d'" "d_parentId d = d_parentId d'"
proof -
  have "d_id (stripTime d) = d_id (stripTime d')" "d_userId (stripTime d) = d_userId (stripTime d')"
    "d_name (stripTime d) = d_name (stripTime d')" "d_type (stripTime d) = d_type (stripTime d')"
    "d_content (stripTime d) = d_content (stripTime d')"
    "d_parentId (stripTime d) = d_parentId (stripTime d')"
    using assms by simp_all
  then show "d_id d = d_id d'" "d_userId d = d_userId d'" "d_name d = d_name d'"
    "d_type d = d_type d'" "d_content d = d_content d'" "d_parentId d = d_parentId d'"
    by (simp_all add: stripTime_def)
qed

lemma strip_ids: "map stripTime a = map stripTime b \<Longrightarrow> map d_id a = map d_id b"
proof -
  assume "map stripTime a = map stripTime b"
  then have "map d_id (map stripTime a) = map d_id (map stripTime b)" by simp
  then show ?thesis by (simp add: stripTime_def o_def)
qed

lemma findOne_strip:
  "map stripTime docs = map stripTime docs' \<Longrightarrow>
     map_option stripTime (findOne docs u n p) = map_option stripTime (findOne docs' u n p)"
proof (induction docs arbitrary: docs')
  case Nil
  then show ?case by (simp add: findOne_def)
next
  case (Cons x xs)
  then obtain x' xs' where d: "docs' = x' # xs'" "stripTime x = stripTime x'"
    "map stripTime xs = map stripTime xs'" by (cases docs') auto
  note f = strip_fields[OF d(2)]
  have ih: "map_option stripTime (findOne xs u n p) = map_option stripTime (findOne xs' u n p)"
    using Cons.IH[OF d(3)] .
  show ?case
  proof (cases "d_userId x = u \<and> d_name x = n \<and> d_parentId x = p")
    case True
    then show ?thesis using d f by (simp add: findOne_def)
  next
    case False
    moreover from False have "\<not> (d_userId x' = u \<and> d_name x' = n \<and> d_parentId x' = p)"
      using f by simp
    ultimately have "findOne (x # xs) u n p = findOne xs u n p" "findOne (x' # xs') u n p = findOne xs' u n p"
      unfolding findOne_def by (simp_all only: find.simps if_False)
    then show ?thesis using ih d(1) by simp
  qed
qed

lemma synced_strip:
  "map stripTime docs = map stripTime docs' \<Longrightarrow>
     synced u es cur p base docs \<Longrightarrow> synced u es cur p base docs'"
proof (induction u es cur p base docs rule: synced.induct)
  case (1 userId currentHostDir vfsParentId base docs)
  then show ?case by simp
next
  case (2 userId name entry entries cur p base docs)
  note eq = "2.prems"(1)
  have rest: "synced userId entries cur p base docs'"
    using "2.IH"(2)[OF eq] "2.prems"(2) by simp
  show ?case
  proof (cases "skippedEntry cur base name")
    case True
    then show ?thesis using rest by simp
  next
    case ns: False
    show ?thesis
    proof (cases entry)
      case HOther
      then show ?thesis using rest ns by simp
    next
      case (HFile c)
      from "2.prems"(2) ns HFile obtain d where f: "findOne docs userId name p = Some d"
        and t: "d_type d = File" "d_content d = c"
        by (auto split: option.splits)
      from findOne_strip[OF eq, of userId name p] f obtain d' where
        f': "findOne docs' userId name p = Some d'" "stripTime d = stripTime d'"
        by (cases "findOne docs' userId name p") auto
      then show ?thesis using rest ns HFile t strip_fields[OF f'(2)] by simp
    next
      case (HDir ch)
      from "2.prems"(2) ns HDir obtain d where f: "findOne docs userId name p = Some d"
        and t: "d_type d = Folder"
        and sy: "synced userId ch (path_join [cur, name]) (Some (d_id d)) base docs"
        by (auto split: option.splits)
      from findOne_strip[OF eq, of userId name p] f obtain d' where
        f': "findOne docs' userId name p = Some d'" "stripTime d = stripTime d'"
        by (cases "findOne docs' userId name p") auto
      note sf = strip_fields[OF f'(2)]
      have "synced userId ch (path_join [cur, name]) (Some (d_id d)) base docs'"
        using "2.IH"(1)[OF ns HDir f eq sy] .
      then show ?thesis using rest ns HDir t sf f'(1) by simp
    qed
  qed
qed

lemma findById_distinct:
  "distinct (map d_id docs) \<Longrightarrow> d \<in> set docs \<Longrightarrow> findById docs (d_id d) = Some d"
proof (induction docs)
  case Nil
  then show ?case by simp
next
  case (Cons x xs)
  show ?case
  proof (cases "d_id x = d_id d")
    case True
    have "x = d"
    proof (rule ccontr)
      assume "x \<noteq> d"
      then have "d \<in> set xs" using Cons.prems(2) by simp
      then have "d_id d \<in> d_id ` set xs" by (rule imageI)
      then show False using Cons.prems(1) True by simp
    qed
    then show ?thesis by (simp add: findById_def)
  next
    case False
    then have "d \<in> set xs" using Cons.prems(2) by auto
    then have "findById xs (d_id d) = Some d" using Cons.IH Cons.prems(1) by simp
    then show ?thesis using False by (simp add: findById_def)
  qed
qed

lemma uploadFile_touch:
  assumes di: "distinct (map d_id (v_docs s))"
    and f: "findOne (v_docs s) u n p = Some d" and t: "d_type d = File" "d_content d = c"
  shows "uploadFile clk u n p c s = touchIfStale clk s (d_id d)"
proof -
  have dw: "dropWrongKind File (findOne (v_docs s) u n p) s = (Some d, s)"
    using f t by (simp add: dropWrongKind_def)
  have din: "d \<in> set (v_docs s)" using findOne_SomeD[OF f] by simp
  have fb: "findById (v_docs s) (d_id d) = Some d" using findById_distinct[OF di din] .
  show ?thesis using dw t fb by (simp add: uploadFile_def touchIfStale_def)
qed

lemma touchIfStale_noop:
  assumes di: "distinct (map d_id (v_docs s))" and din: "d \<in> set (v_docs s)"
  shows "map stripTime (v_docs (touchIfStale clk s (d_id d))) = map stripTime (v_docs s)"
    and "v_nextId (touchIfStale clk s (d_id d)) = v_nextId s"
    and "(\<forall>t. clk t \<le> d_updatedAt d + 1000) \<Longrightarrow> v_docs (touchIfStale clk s (d_id d)) = v_docs s"
proof -
  have fb: "findById (v_docs s) (d_id d) = Some d" using findById_distinct[OF di din] .
  let ?d' = "d\<lparr>d_updatedAt := clk (Suc (Suc (v_tick s)))\<rparr>"
  have m: "map stripTime (saveDoc ?d' (v_docs s)) = map stripTime (v_docs s)"
    by (rule map_saveDoc[OF di din]) (simp_all add: stripTime_def)
  show "map stripTime (v_docs (touchIfStale clk s (d_id d))) = map stripTime (v_docs s)"
    using fb m by (simp add: touchIfStale_def save_def newDate_def Let_def)
  show "v_nextId (touchIfStale clk s (d_id d)) = v_nextId s"
    using fb by (simp add: touchIfStale_def save_def newDate_def Let_def)
  show "v_docs (touchIfStale clk s (d_id d)) = v_docs s" if "\<forall>t. clk t \<le> d_updatedAt d + 1000"
  proof -
    have "\<not> clk (v_tick s) - d_updatedAt d > 1000" using that[rule_format, of "v_tick s"] by simp
    then show ?thesis using fb by (simp add: touchIfStale_def newDate_def Let_def)
  qed
qed

lemma uploadFile_noop:
  assumes di: "distinct (map d_id (v_docs s))"
    and f: "findOne (v_docs s) u n p = Some d" and t: "d_type d = File" "d_content d = c"
  shows "map stripTime (v_docs (uploadFile clk u n p c s)) = map stripTime (v_docs s)"
    and "v_nextId (uploadFile clk u n p c s) = v_nextId s"
    and "(\<forall>t. clk t \<le> d_updatedAt d + 1000) \<Longrightarrow> v_docs (uploadFile clk u n p c s) = v_docs s"
proof -
  have din: "d \<in> set (v_docs s)" using findOne_SomeD[OF f] by simp
  note e = uploadFile_touch[OF di f t, of clk]
  show "map stripTime (v_docs (uploadFile clk u n p c s)) = map stripTime (v_docs s)"
    unfolding e by (rule touchIfStale_noop(1)[OF di din])
  show "v_nextId (uploadFile clk u n p c s) = v_nextId s"
    unfolding e by (rule touchIfStale_noop(2)[OF di din])
  show "v_docs (uploadFile clk u n p c s) = v_docs s" if "\<forall>t. clk t \<le> d_updatedAt d + 1000"
    unfolding e using that by (rule touchIfStale_noop(3)[OF di din])
qed

lemma ensureFolder_noop:
  "findOne (v_docs s) u n p = Some d \<Longrightarrow> d_type d = Folder \<Longrightarrow> ensureFolder clk u n p s = (d, s)"
  by (simp add: ensureFolder_def dropWrongKind_def)

lemma scan_noop:
  "distinct (map d_id (v_docs s)) \<Longrightarrow> synced u es cur p base (v_docs s) \<Longrightarrow>
   map stripTime (v_docs (recursivelyScanHostAndUploadToVFS clk u es cur p base s)) = map stripTime (v_docs s)
   \<and> v_nextId (recursivelyScanHostAndUploadToVFS clk u es cur p base s) = v_nextId s
   \<and> ((\<forall>t. \<forall>d \<in> set (v_docs s). clk t \<le> d_updatedAt d + 1000) \<longrightarrow>
        v_docs (recursivelyScanHostAndUploadToVFS clk u es cur p base s) = v_docs s)"
proof (induction clk u es cur p base s rule: recursivelyScanHostAndUploadToVFS.induct)
  case (1 clk userId currentHostDir vfsParentId base s)
  then show ?case by simp
next
  case (2 clk u name entry es cur p base s)
  note di = "2.prems"(1) and sy = "2.prems"(2)
  have syr: "synced u es cur p base (v_docs s)" using sy by simp
  have step: "map stripTime (v_docs (recursivelyScanHostAndUploadToVFS clk u es cur p base s1)) = map stripTime (v_docs s)
      \<and> v_nextId (recursivelyScanHostAndUploadToVFS clk u es cur p base s1) = v_nextId s
      \<and> ((\<forall>t. \<forall>d \<in> set (v_docs s). clk t \<le> d_updatedAt d + 1000) \<longrightarrow>
           v_docs (recursivelyScanHostAndUploadToVFS clk u es cur p base s1) = v_docs s)"
    if m: "map stripTime (v_docs s1) = map stripTime (v_docs s)" and n: "v_nextId s1 = v_nextId s"
      and ex: "(\<forall>t. \<forall>d \<in> set (v_docs s). clk t \<le> d_updatedAt d + 1000) \<Longrightarrow> v_docs s1 = v_docs s"
      and ih: "distinct (map d_id (v_docs s1)) \<Longrightarrow> synced u es cur p base (v_docs s1) \<Longrightarrow>
        map stripTime (v_docs (recursivelyScanHostAndUploadToVFS clk u es cur p base s1)) = map stripTime (v_docs s1)
        \<and> v_nextId (recursivelyScanHostAndUploadToVFS clk u es cur p base s1) = v_nextId s1
        \<and> ((\<forall>t. \<forall>d \<in> set (v_docs s1). clk t \<le> d_updatedAt d + 1000) \<longrightarrow>
           v_docs (recursivelyScanHostAndUploadToVFS clk u es cur p base s1) = v_docs s1)"
    for s1
  proof -
    have d1: "distinct (map d_id (v_docs s1))" using strip_ids[OF m] di by simp
    have s1: "synced u es cur p base (v_docs s1)" using synced_strip[OF m[symmetric] syr] .
    from ih[OF d1 s1] show ?thesis using m n ex by metis
  qed
  show ?case
  proof (cases "skippedEntry cur base name")
    case True
    have r: "recursivelyScanHostAndUploadToVFS clk u ((name, entry) # es) cur p base s
        = recursivelyScanHostAndUploadToVFS clk u es cur p base s" using True by simp
    show ?thesis unfolding r by (rule step[OF refl refl refl "2.IH"(1)[OF True]])
  next
    case ns: False
    show ?thesis
    proof (cases entry)
      case HOther
      have r: "recursivelyScanHostAndUploadToVFS clk u ((name, entry) # es) cur p base s
          = recursivelyScanHostAndUploadToVFS clk u es cur p base s" using ns HOther by simp
      show ?thesis unfolding r by (rule step[OF refl refl refl "2.IH"(5)[OF ns HOther]])
    next
      case (HFile c)
      from sy ns HFile obtain d where f: "findOne (v_docs s) u name p = Some d"
        and t: "d_type d = File" "d_content d = c"
        by (auto split: option.splits)
      have r: "recursivelyScanHostAndUploadToVFS clk u ((name, entry) # es) cur p base s
          = recursivelyScanHostAndUploadToVFS clk u es cur p base (uploadFile clk u name p c s)"
        using ns HFile by simp
      note un = uploadFile_noop[OF di f t, of clk]
      have din: "d \<in> set (v_docs s)" using findOne_SomeD[OF f] by simp
      have ex: "v_docs (uploadFile clk u name p c s) = v_docs s"
        if "\<forall>t. \<forall>d \<in> set (v_docs s). clk t \<le> d_updatedAt d + 1000"
        using un(3) that din by blast
      show ?thesis unfolding r by (rule step[OF un(1) un(2) ex "2.IH"(2)[OF ns HFile]])
    next
      case (HDir ch)
      from sy ns HDir obtain d where f: "findOne (v_docs s) u name p = Some d"
        and t: "d_type d = Folder"
        and sch: "synced u ch (path_join [cur, name]) (Some (d_id d)) base (v_docs s)"
        by (auto split: option.splits)
      have ef: "ensureFolder clk u name p s = (d, s)" using ensureFolder_noop[OF f t] .
      define sb where "sb = recursivelyScanHostAndUploadToVFS clk u ch (path_join [cur, name]) (Some (d_id d)) base s"
      have r: "recursivelyScanHostAndUploadToVFS clk u ((name, entry) # es) cur p base s
          = recursivelyScanHostAndUploadToVFS clk u es cur p base sb"
        using ns HDir ef by (simp add: sb_def)
      have chn: "map stripTime (v_docs sb) = map stripTime (v_docs s) \<and> v_nextId sb = v_nextId s
          \<and> ((\<forall>t. \<forall>d \<in> set (v_docs s). clk t \<le> d_updatedAt d + 1000) \<longrightarrow> v_docs sb = v_docs s)"
        using "2.IH"(3)[OF ns HDir ef[symmetric] di sch] by (simp add: sb_def)
      have ex: "v_docs sb = v_docs s" if "\<forall>t. \<forall>d \<in> set (v_docs s). clk t \<le> d_updatedAt d + 1000"
        using chn that by blast
      have ih: "distinct (map d_id (v_docs sb)) \<Longrightarrow> synced u es cur p base (v_docs sb) \<Longrightarrow>
        map stripTime (v_docs (recursivelyScanHostAndUploadToVFS clk u es cur p base sb)) = map stripTime (v_docs sb)
        \<and> v_nextId (recursivelyScanHostAndUploadToVFS clk u es cur p base sb) = v_nextId sb
        \<and> ((\<forall>t. \<forall>d \<in> set (v_docs sb). clk t \<le> d_updatedAt d + 1000) \<longrightarrow>
           v_docs (recursivelyScanHostAndUploadToVFS clk u es cur p base sb) = v_docs sb)"
        using "2.IH"(4)[OF ns HDir ef[symmetric]] by (simp add: sb_def)
      show ?thesis unfolding r
        by (rule step[OF conjunct1[OF chn] conjunct1[OF conjunct2[OF chn]] ex ih])
    qed
  qed
qed

lemma visited_strip:
  "map stripTime docs = map stripTime docs' \<Longrightarrow>
     visitedFiles u es cur p base docs = visitedFiles u es cur p base docs'"
proof (induction u es cur p base docs rule: visitedFiles.induct)
  case (1 userId currentHostDir vfsParentId base docs)
  then show ?case by simp
next
  case (2 userId name entry entries cur p base docs)
  note eq = "2.prems"(1)
  have rest: "visitedFiles userId entries cur p base docs = visitedFiles userId entries cur p base docs'"
    using "2.IH"(2)[OF eq] .
  show ?case
  proof (cases "skippedEntry cur base name")
    case True
    then show ?thesis using rest by simp
  next
    case ns: False
    show ?thesis
    proof (cases "findOne docs userId name p")
      case None
      then have "findOne docs' userId name p = None"
        using findOne_strip[OF eq, of userId name p] by simp
      then show ?thesis using rest ns None by (cases entry) simp_all
    next
      case (Some d)
      from findOne_strip[OF eq, of userId name p] Some obtain d' where
        f': "findOne docs' userId name p = Some d'" "stripTime d = stripTime d'"
        by (cases "findOne docs' userId name p") auto
      note sf = strip_fields[OF f'(2)]
      show ?thesis
      proof (cases entry)
        case HOther
        then show ?thesis using rest ns by simp
      next
        case (HFile c)
        then show ?thesis using rest ns Some f'(1) sf(1) by simp
      next
        case (HDir ch)
        have "visitedFiles userId ch (path_join [cur, name]) (Some (d_id d)) base docs
            = visitedFiles userId ch (path_join [cur, name]) (Some (d_id d)) base docs'"
          using "2.IH"(1)[OF ns HDir Some eq] .
        then show ?thesis using rest ns HDir Some f'(1) sf(1) by simp
      qed
    qed
  qed
qed

lemma scan_touch:
  "distinct (map d_id (v_docs s)) \<Longrightarrow> synced u es cur p base (v_docs s) \<Longrightarrow>
   recursivelyScanHostAndUploadToVFS clk u es cur p base s
     = foldl (touchIfStale clk) s (visitedFiles u es cur p base (v_docs s))"
proof (induction clk u es cur p base s rule: recursivelyScanHostAndUploadToVFS.induct)
  case (1 clk userId currentHostDir vfsParentId base s)
  then show ?case by simp
next
  case (2 clk u name entry es cur p base s)
  note di = "2.prems"(1) and sy = "2.prems"(2)
  have syr: "synced u es cur p base (v_docs s)" using sy by simp
  show ?case
  proof (cases "skippedEntry cur base name")
    case True
    then show ?thesis using "2.IH"(1)[OF True di syr] by simp
  next
    case ns: False
    show ?thesis
    proof (cases entry)
      case HOther
      then show ?thesis using "2.IH"(5)[OF ns HOther di syr] ns by simp
    next
      case (HFile c)
      from sy ns HFile obtain d where f: "findOne (v_docs s) u name p = Some d"
        and t: "d_type d = File" "d_content d = c"
        by (auto split: option.splits)
      define s1 where "s1 = uploadFile clk u name p c s"
      note un = uploadFile_noop[OF di f t, of clk, folded s1_def]
      have s1t: "s1 = touchIfStale clk s (d_id d)" unfolding s1_def by (rule uploadFile_touch[OF di f t])
      have d1: "distinct (map d_id (v_docs s1))" using strip_ids[OF un(1)] di by simp
      have sy1: "synced u es cur p base (v_docs s1)" using synced_strip[OF un(1)[symmetric] syr] .
      have "recursivelyScanHostAndUploadToVFS clk u es cur p base s1
          = foldl (touchIfStale clk) s1 (visitedFiles u es cur p base (v_docs s1))"
        using "2.IH"(2)[OF ns HFile] d1 sy1 by (simp add: s1_def)
      also have "visitedFiles u es cur p base (v_docs s1) = visitedFiles u es cur p base (v_docs s)"
        by (rule visited_strip[OF un(1)])
      finally show ?thesis using ns HFile f s1t by (simp add: s1_def)
    next
      case (HDir ch)
      from sy ns HDir obtain d where f: "findOne (v_docs s) u name p = Some d"
        and t: "d_type d = Folder"
        and sch: "synced u ch (path_join [cur, name]) (Some (d_id d)) base (v_docs s)"
        by (auto split: option.splits)
      have ef: "ensureFolder clk u name p s = (d, s)" using ensureFolder_noop[OF f t] .
      define sb where "sb = recursivelyScanHostAndUploadToVFS clk u ch (path_join [cur, name]) (Some (d_id d)) base s"
      have r: "recursivelyScanHostAndUploadToVFS clk u ((name, entry) # es) cur p base s
          = recursivelyScanHostAndUploadToVFS clk u es cur p base sb"
        using ns HDir ef by (simp add: sb_def)
      have sbt: "sb = foldl (touchIfStale clk) s
          (visitedFiles u ch (path_join [cur, name]) (Some (d_id d)) base (v_docs s))"
        using "2.IH"(3)[OF ns HDir ef[symmetric] di sch] by (simp add: sb_def)
      have m: "map stripTime (v_docs sb) = map stripTime (v_docs s)"
        using scan_noop[OF di sch, of clk] by (simp add: sb_def)
      have d1: "distinct (map d_id (v_docs sb))" using strip_ids[OF m] di by simp
      have sy1: "synced u es cur p base (v_docs sb)" using synced_strip[OF m[symmetric] syr] .
      have "recursivelyScanHostAndUploadToVFS clk u es cur p base sb
          = foldl (touchIfStale clk) sb (visitedFiles u es cur p base (v_docs sb))"
        using "2.IH"(4)[OF ns HDir ef[symmetric]] d1 sy1 by (simp add: sb_def)
      also have "visitedFiles u es cur p base (v_docs sb) = visitedFiles u es cur p base (v_docs s)"
        by (rule visited_strip[OF m])
      finally show ?thesis unfolding r using ns HDir f sbt by simp
    qed
  qed
qed

lemma scan_append:
  "recursivelyScanHostAndUploadToVFS clk u (xs @ ys) cur p base s
     = recursivelyScanHostAndUploadToVFS clk u ys cur p base
         (recursivelyScanHostAndUploadToVFS clk u xs cur p base s)"
proof (induction xs arbitrary: s)
  case Nil
  then show ?case by simp
next
  case (Cons x xs)
  obtain n e where x: "x = (n, e)" by (cases x)
  show ?case unfolding x using Cons.IH
    by (cases e) (simp_all split: prod.splits)
qed

lemma wfHost_append:
  "wfHost (pre @ (name, entry) # post) \<Longrightarrow>
     wfHost pre \<and> wfHost post \<and> name \<notin> fst ` set pre \<and> name \<notin> fst ` set post
     \<and> (\<forall>ch. entry = HDir ch \<longrightarrow> wfHost ch)"
proof (induction pre)
  case Nil
  then show ?case by (cases entry) simp_all
next
  case (Cons x pre)
  obtain n e where x: "x = (n, e)" by (cases x)
  have w: "n \<notin> fst ` set (pre @ (name, entry) # post)" "wfHost (pre @ (name, entry) # post)"
    and we: "case e of HDir children \<Rightarrow> wfHost children | _ \<Rightarrow> True"
    using Cons.prems x by simp_all
  from Cons.IH[OF w(2)] have ih: "wfHost pre" "wfHost post" "name \<notin> fst ` set pre"
    "name \<notin> fst ` set post" "\<forall>ch. entry = HDir ch \<longrightarrow> wfHost ch" by simp_all
  have "n \<noteq> name" using w(1) by auto
  moreover have "n \<notin> fst ` set pre" using w(1) by auto
  ultimately show ?case using ih we x by auto
qed

lemma rank_trancl:
  assumes ok: "rankedStore r s" and t: "(a, b) \<in> (parentRel (v_docs s))\<^sup>+"
  shows "r a < r b"
  using t
proof (induction rule: trancl_induct)
  case (base y)
  then obtain d where d: "d \<in> set (v_docs s)" "d_parentId d = Some a" "d_id d = y"
    unfolding parentRel_iff by blast
  from ranked_parent[OF ok d(1)] show ?case using d by simp
next
  case (step y z)
  then obtain d where d: "d \<in> set (v_docs s)" "d_parentId d = Some y" "d_id d = z"
    unfolding parentRel_iff by blast
  from ranked_parent[OF ok d(1)] have "r y < r z" using d by simp
  then show ?case using step.IH by simp
qed

lemma desc_is_id:
  assumes t: "(a, b) \<in> (parentRel docs)\<^sup>+"
  shows "\<exists>d \<in> set docs. d_id d = b"
proof -
  from t obtain c where "(c, b) \<in> parentRel docs" by (metis tranclE)
  then show ?thesis unfolding parentRel_iff by blast
qed

lemma desc_parent:
  assumes di: "distinct (map d_id docs)" and d: "d \<in> set docs"
    and t: "(a, d_id d) \<in> (parentRel docs)\<^sup>+"
  shows "\<exists>q. d_parentId d = Some q \<and> (q = a \<or> (a, q) \<in> (parentRel docs)\<^sup>+)"
proof -
  from t obtain c where c: "(c, d_id d) \<in> parentRel docs" "c = a \<or> (a, c) \<in> (parentRel docs)\<^sup>+"
    by (metis tranclE)
  then obtain d' where d': "d' \<in> set docs" "d_parentId d' = Some c" "d_id d' = d_id d"
    unfolding parentRel_iff by blast
  have "inj_on d_id (set docs)" using di by (simp add: distinct_map)
  from inj_onD[OF this d'(3) d'(1) d] have "d' = d" .
  then show ?thesis using d'(2) c(2) by blast
qed

text \<open>The places below a node and below its descendants.\<close>

lemma below_closed:
  assumes ok: "rankedStore r s" and vp: "validParent p s"
    and st: "stale \<in> set (v_docs s)" and key: "docKey stale = (u, name, p)"
    and N: "name \<notin> N"
  defines "D \<equiv> {i. i = d_id stale \<or> (d_id stale, i) \<in> (parentRel (v_docs s))\<^sup>+}"
  shows "closedFor u ({(m, q). rk r q < rk r p} \<union> {(m, q). q = p \<and> m \<notin> N}
            \<union> {(m, q). \<exists>i \<in> D. q = Some i}) p N s"
proof -
  let ?K = "{(m, q). rk r q < rk r p} \<union> {(m, q). q = p \<and> m \<notin> N} \<union> {(m, q). \<exists>i \<in> D. q = Some i}"
  have sp: "d_parentId stale = p" "d_userId stale = u" "d_name stale = name"
    using key by (simp_all add: docKey_def)
  have rs: "rk r p < rk r (Some (d_id stale))" using ranked_parent[OF ok st] sp by simp
  have rD: "rk r p < rk r (Some i)" if "i \<in> D" for i
  proof -
    from that consider "i = d_id stale" | "(d_id stale, i) \<in> (parentRel (v_docs s))\<^sup>+"
      unfolding D_def by blast
    then show ?thesis
    proof cases
      case 1 then show ?thesis using rs by simp
    next
      case 2
      from rank_trancl[OF ok 2] show ?thesis using rs by simp
    qed
  qed
  have bD: "i < v_nextId s" if "i \<in> D" for i
  proof -
    from that consider "i = d_id stale" | "(d_id stale, i) \<in> (parentRel (v_docs s))\<^sup>+"
      unfolding D_def by blast
    then show ?thesis
    proof cases
      case 1 then show ?thesis using ranked_bound[OF ok st] by simp
    next
      case 2
      from desc_is_id[OF 2] obtain d where "d \<in> set (v_docs s)" "d_id d = i" by blast
      then show ?thesis using ranked_bound[OF ok, of d] by simp
    qed
  qed
  have a: "(n, p) \<notin> ?K" if "n \<in> N" for n
  proof
    assume "(n, p) \<in> ?K"
    then have "\<exists>i \<in> D. p = Some i" using that by simp
    then obtain i where "i \<in> D" "p = Some i" by blast
    then show False using rD[of i] by simp
  qed
  have b: "(n, Some j) \<notin> ?K" if j: "v_nextId s \<le> j" for n j
  proof
    assume h: "(n, Some j) \<in> ?K"
    have pj: "rk r p < rk r (Some j)" using rk_validParent[OF ok vp j] .
    then have "Some j \<noteq> p" by auto
    then have "j \<in> D" using h pj by auto
    then show False using bD[of j] j by simp
  qed
  have c: "(n, Some (d_id d)) \<notin> ?K"
    if d: "d \<in> set (v_docs s)" and du: "d_userId d = u" and pl: "(d_name d, d_parentId d) \<notin> ?K" for d n
  proof
    assume h: "(n, Some (d_id d)) \<in> ?K"
    have np: "\<not> rk r (d_parentId d) < rk r p" using pl by simp
    have pd: "rk r (d_parentId d) < rk r (Some (d_id d))" using ranked_parent[OF ok d] .
    have "\<not> rk r (Some (d_id d)) < rk r p" using np pd by simp
    moreover have "Some (d_id d) \<noteq> p" using np pd by auto
    ultimately have "d_id d \<in> D" using h by auto
    then consider "d_id d = d_id stale" | "(d_id stale, d_id d) \<in> (parentRel (v_docs s))\<^sup>+"
      unfolding D_def by blast
    then show False
    proof cases
      case 1
      then have "d = stale" using same_id_same_doc[OF ok d st] by simp
      then show False using pl sp N by simp
    next
      case 2
      from desc_parent[OF ranked_ids[OF ok] d 2] obtain q where
        q: "d_parentId d = Some q" "q = d_id stale \<or> (d_id stale, q) \<in> (parentRel (v_docs s))\<^sup>+"
        by blast
      then have "q \<in> D" unfolding D_def by blast
      then show False using pl q(1) by auto
    qed
  qed
  show ?thesis unfolding closedFor_def using a b c by blast
qed

lemma frame_keeps:
  assumes "frame u K s s'" and "d \<in> set (v_docs s)"
    and "d_userId d \<noteq> u \<or> (d_name d, d_parentId d) \<in> K"
  shows "d \<in> set (v_docs s')"
  using assms unfolding frame_def by blast

lemma descendants_stay:
  assumes ok: "rankedStore r s" and vp: "validParent p s"
    and wf: "wfHost (pre @ (name, entry) # post)"
    and ns: "\<not> skippedEntry cur base name" and no: "entry \<noteq> HOther"
    and st: "findOne (v_docs s) u name p = Some stale"
    and mis: "d_type stale \<noteq> hostKind entry"
    and d: "d \<in> set (v_docs s)" and desc: "(d_id stale, d_id d) \<in> (parentRel (v_docs s))\<^sup>+"
  shows "d \<in> set (v_docs (recursivelyScanHostAndUploadToVFS clk u (pre @ (name, entry) # post) cur p base s))"
proof -
  from wfHost_append[OF wf] have wpre: "wfHost pre" and wpost: "wfHost post"
    and npre: "name \<notin> fst ` set pre" and npost: "name \<notin> fst ` set post"
    and wch: "\<And>ch. entry = HDir ch \<Longrightarrow> wfHost ch" by simp_all
  from findOne_SomeD[OF st] have sin: "stale \<in> set (v_docs s)" and sk: "docKey stale = (u, name, p)"
    by simp_all
  define N where "N = fst ` set pre \<union> fst ` set post"
  have nN: "name \<notin> N" using npre npost by (simp add: N_def)
  define D where "D = {i. i = d_id stale \<or> (d_id stale, i) \<in> (parentRel (v_docs s))\<^sup>+}"
  define K1 :: "(string \<times> nat option) set" where "K1 = {(m, q). \<exists>i \<in> D. q = Some i}"
  define K2 where "K2 = {(m, q). rk r q < rk r p} \<union> {(m, q). q = p \<and> m \<notin> N} \<union> K1"
  have c2: "closedFor u K2 p N s"
    unfolding K2_def K1_def D_def by (rule below_closed[OF ok vp sin sk nN])
  have K12: "K1 \<subseteq> K2" by (auto simp: K2_def)
  have Dlt: "i < v_nextId s" if "i \<in> D" for i
  proof -
    from that consider "i = d_id stale" | "(d_id stale, i) \<in> (parentRel (v_docs s))\<^sup>+"
      unfolding D_def by blast
    then show ?thesis
    proof cases
      case 1 then show ?thesis using ranked_bound[OF ok sin] by simp
    next
      case 2
      from desc_is_id[OF 2] obtain x where "x \<in> set (v_docs s)" "d_id x = i" by blast
      then show ?thesis using ranked_bound[OF ok, of x] by simp
    qed
  qed
  have placeD: "(d_name x, d_parentId x) \<in> K1"
    if "x \<in> set (v_docs s)" "(d_id stale, d_id x) \<in> (parentRel (v_docs s))\<^sup>+" for x
  proof -
    from desc_parent[OF ranked_ids[OF ok] that] obtain q where
      q: "d_parentId x = Some q" "q = d_id stale \<or> (d_id stale, q) \<in> (parentRel (v_docs s))\<^sup>+"
      by blast
    then have "q \<in> D" unfolding D_def by blast
    then show ?thesis using q(1) by (auto simp: K1_def)
  qed
  have pl: "(d_name d, d_parentId d) \<in> K1" using placeD[OF d desc] .
  have pnotD: "p \<noteq> Some i" if "i \<in> D" for i
  proof -
    have "rk r p < rk r (Some (d_id stale))" using ranked_parent[OF ok sin] sk by (simp add: docKey_def)
    moreover have "r (d_id stale) \<le> r i"
    proof -
      from that consider "i = d_id stale" | "(d_id stale, i) \<in> (parentRel (v_docs s))\<^sup>+"
        unfolding D_def by blast
      then show ?thesis
      proof cases
        case 1 then show ?thesis by simp
      next
        case 2
        from rank_trancl[OF ok 2] show ?thesis by simp
      qed
    qed
    ultimately show ?thesis by auto
  qed
  have dkey: "docKey d \<noteq> (u, name, p)"
  proof
    assume "docKey d = (u, name, p)"
    then have "d_parentId d = p" by (simp add: docKey_def)
    then show False using pl pnotD by (auto simp: K1_def)
  qed
  define sa where "sa = recursivelyScanHostAndUploadToVFS clk u pre cur p base s"
  have pa: "pushResult r u pre cur p base s sa" unfolding sa_def by (rule scan_main[OF ok vp wpre])
  then have oka: "rankedStore r sa" and lea: "v_nextId s \<le> v_nextId sa" and oa: "origin s sa"
    and fa: "\<And>K. closedFor u K p (fst ` set pre) s \<Longrightarrow> frame u K s sa"
    by (simp_all add: pushResult_def)
  have "closedFor u K2 p (fst ` set pre) s" using closedFor_subset[OF c2] by (simp add: N_def)
  then have fra: "frame u K2 s sa" by (rule fa)
  have da: "d \<in> set (v_docs sa)" using frame_keeps[OF fra d] pl K12 by blast
  have vpa: "validParent p sa" using validParent_mono[OF vp lea] .
  have "\<exists>sc. recursivelyScanHostAndUploadToVFS clk u ((name, entry) # post) cur p base sa
              = recursivelyScanHostAndUploadToVFS clk u post cur p base sc
            \<and> rankedStore r sc \<and> v_nextId sa \<le> v_nextId sc \<and> origin sa sc \<and> d \<in> set (v_docs sc)"
  proof (cases entry)
    case HOther
    then show ?thesis using no by simp
  next
    case (HFile c)
    define sc where "sc = uploadFile clk u name p c sa"
    note up = uploadFile_props[OF oka vpa sc_def]
    have "d \<in> set (v_docs sc)" using up(4)[OF dkey] da by simp
    moreover have "recursivelyScanHostAndUploadToVFS clk u ((name, entry) # post) cur p base sa
              = recursivelyScanHostAndUploadToVFS clk u post cur p base sc"
      using ns HFile by (simp add: sc_def)
    ultimately show ?thesis using up(1,2,3) by blast
  next
    case (HDir ch)
    obtain f sb where ef: "ensureFolder clk u name p sa = (f, sb)" by force
    note ep = ensureFolder_props[OF oka vpa ef]
    define cur' where "cur' = path_join [cur, name]"
    define sc where "sc = recursivelyScanHostAndUploadToVFS clk u ch cur' (Some (d_id f)) base sb"
    have r: "recursivelyScanHostAndUploadToVFS clk u ((name, entry) # post) cur p base sa
              = recursivelyScanHostAndUploadToVFS clk u post cur p base sc"
      using ns HDir ef by (simp add: sc_def cur'_def)
    have db: "d \<in> set (v_docs sb)" using ep(4)[OF dkey] da by simp
    have vpb: "validParent (Some (d_id f)) sb"
      using ranked_bound[OF ep(1) ep(5)] by (simp add: validParent_def)
    have pc: "pushResult r u ch cur' (Some (d_id f)) base sb sc"
      unfolding sc_def by (rule scan_main[OF ep(1) vpb wch[OF HDir]])
    then have okc: "rankedStore r sc" and lec: "v_nextId sb \<le> v_nextId sc" and oc: "origin sb sc"
      and fc: "\<And>K. closedFor u K (Some (d_id f)) (fst ` set ch) sb \<Longrightarrow> frame u K sb sc"
      by (simp_all add: pushResult_def)
    have osb: "origin s sb" using origin_trans[OF oa ep(3) lea] .
    have leb: "v_nextId s \<le> v_nextId sb" using lea ep(2) by simp
    have inD: "(d_name x, d_parentId x) \<in> K1" if x: "x \<in> set (v_docs sb)" and xi: "d_id x \<in> D" for x
    proof -
      have "\<not> v_nextId s \<le> d_id x" using Dlt[OF xi] by simp
      with osb x obtain x0 where x0: "x0 \<in> set (v_docs s)" "d_id x0 = d_id x" "docKey x0 = docKey x"
        "d_type x0 = d_type x" unfolding origin_def by blast
      from xi consider "d_id x = d_id stale" | "(d_id stale, d_id x) \<in> (parentRel (v_docs s))\<^sup>+"
        unfolding D_def by blast
      then show ?thesis
      proof cases
        case 1
        then have "x0 = stale" using same_id_same_doc[OF ok x0(1) sin] x0(2) by simp
        then have "docKey x = (u, name, p)" "d_type x = d_type stale" using x0(3,4) sk by simp_all
        then have "x = f" using same_key_same_doc[OF ep(1) x ep(5)] ep(6) by simp
        then have "d_type stale = Folder" using \<open>d_type x = d_type stale\<close> ep(7) by simp
        then show ?thesis using mis HDir by simp
      next
        case 2
        then have "(d_id stale, d_id x0) \<in> (parentRel (v_docs s))\<^sup>+" using x0(2) by simp
        from placeD[OF x0(1) this] show ?thesis using x0(3) by (simp add: docKey_def)
      qed
    qed
    have fnew: "d_id f \<notin> D"
    proof
      assume "d_id f \<in> D"
      from inD[OF ep(5) this] have "(d_name f, d_parentId f) \<in> K1" .
      then have "\<exists>i \<in> D. p = Some i" using ep(6) by (simp add: K1_def docKey_def)
      then show False using pnotD by blast
    qed
    have c1: "closedFor u K1 (Some (d_id f)) (fst ` set ch) sb"
      unfolding closedFor_def
    proof (intro conjI ballI allI impI)
      fix n assume "n \<in> fst ` set ch"
      show "(n, Some (d_id f)) \<notin> K1" using fnew by (simp add: K1_def)
    next
      fix j n assume "v_nextId sb \<le> j"
      then have "\<not> j < v_nextId s" using leb by simp
      then have "j \<notin> D" using Dlt by blast
      then show "(n, Some j) \<notin> K1" by (simp add: K1_def)
    next
      fix x n assume x: "x \<in> set (v_docs sb)" and h: "d_userId x = u \<and> (d_name x, d_parentId x) \<notin> K1"
      have "d_id x \<notin> D" using inD[OF x] h by blast
      then show "(n, Some (d_id x)) \<notin> K1" by (simp add: K1_def)
    qed
    have "frame u K1 sb sc" using fc[OF c1] .
    from frame_keeps[OF this db] have dc: "d \<in> set (v_docs sc)" using pl by blast
    have "origin sa sc" using origin_trans[OF ep(3) oc ep(2)] .
    moreover have "v_nextId sa \<le> v_nextId sc" using ep(2) lec by simp
    ultimately show ?thesis using r okc dc by blast
  qed
  then obtain sc where r: "recursivelyScanHostAndUploadToVFS clk u ((name, entry) # post) cur p base sa
              = recursivelyScanHostAndUploadToVFS clk u post cur p base sc"
    and okc: "rankedStore r sc" and lec: "v_nextId sa \<le> v_nextId sc" and oc: "origin sa sc"
    and dc: "d \<in> set (v_docs sc)" by blast
  have osc: "origin s sc" using origin_trans[OF oa oc lea] .
  have les: "v_nextId s \<le> v_nextId sc" using lea lec by simp
  have vpc: "validParent p sc" using validParent_mono[OF vp les] .
  define s' where "s' = recursivelyScanHostAndUploadToVFS clk u post cur p base sc"
  have pp: "pushResult r u post cur p base sc s'" unfolding s'_def by (rule scan_main[OF okc vpc wpost])
  then have fp: "\<And>K. closedFor u K p (fst ` set post) sc \<Longrightarrow> frame u K sc s'"
    by (simp add: pushResult_def)
  have "closedFor u K2 p N sc" using closedFor_mono[OF c2 osc les] .
  then have "closedFor u K2 p (fst ` set post) sc" using closedFor_subset by (simp add: N_def)
  then have "frame u K2 sc s'" by (rule fp)
  from frame_keeps[OF this dc] have "d \<in> set (v_docs s')" using pl K12 by blast
  moreover have "recursivelyScanHostAndUploadToVFS clk u (pre @ (name, entry) # post) cur p base s = s'"
    unfolding scan_append sa_def[symmetric] r s'_def ..
  ultimately show ?thesis by simp
qed

lemma visited_files:
  "synced u es cur p base docs \<Longrightarrow> i \<in> set (visitedFiles u es cur p base docs) \<Longrightarrow>
     \<exists>d \<in> set docs. d_id d = i \<and> d_type d = File \<and> d_userId d = u"
proof (induction u es cur p base docs rule: visitedFiles.induct)
  case (1 userId currentHostDir vfsParentId base docs)
  then show ?case by simp
next
  case (2 userId name entry entries cur p base docs)
  have syr: "synced userId entries cur p base docs" using "2.prems"(1) by simp
  show ?case
  proof (cases "i \<in> set (visitedFiles userId entries cur p base docs)")
    case True
    from "2.IH"(2)[OF syr True] show ?thesis .
  next
    case nr: False
    then have ns: "\<not> skippedEntry cur base name" using "2.prems"(2) by auto
    show ?thesis
    proof (cases entry)
      case HOther
      then show ?thesis using "2.prems"(2) nr ns by simp
    next
      case (HFile c)
      from "2.prems"(1) ns HFile obtain d where f: "findOne docs userId name p = Some d"
        and t: "d_type d = File" by (auto split: option.splits)
      have "i = d_id d" using "2.prems"(2) nr ns HFile f by simp
      moreover from findOne_SomeD[OF f] have "d \<in> set docs" "d_userId d = userId"
        by (simp_all add: docKey_def)
      ultimately show ?thesis using t by blast
    next
      case (HDir ch)
      from "2.prems"(1) ns HDir obtain d where f: "findOne docs userId name p = Some d"
        and sy: "synced userId ch (path_join [cur, name]) (Some (d_id d)) base docs"
        by (auto split: option.splits)
      have "i \<in> set (visitedFiles userId ch (path_join [cur, name]) (Some (d_id d)) base docs)"
        using "2.prems"(2) nr ns HDir f by simp
      from "2.IH"(1)[OF ns HDir f sy this] show ?thesis .
    qed
  qed
qed

lemma synced_mem:
  "synced u es cur p base docs \<Longrightarrow> (name, entry) \<in> set es \<Longrightarrow> \<not> skippedEntry cur base name \<Longrightarrow>
     entry \<noteq> HOther \<Longrightarrow> \<exists>d. findOne docs u name p = Some d \<and> d_type d = hostKind entry"
proof (induction es)
  case Nil
  then show ?case by simp
next
  case (Cons a es)
  obtain n e where a: "a = (n, e)" by (cases a)
  show ?case
  proof (cases "(name, entry) = (n, e)")
    case True
    then show ?thesis using Cons.prems a
      by (cases entry) (auto split: option.splits)
  next
    case False
    then have "(name, entry) \<in> set es" using Cons.prems(2) a by auto
    moreover have "synced u es cur p base docs" using Cons.prems(1) a by simp
    ultimately show ?thesis using Cons.IH Cons.prems(3,4) by blast
  qed
qed

lemma findById_SomeD: "findById docs i = Some d \<Longrightarrow> d \<in> set docs \<and> d_id d = i"
  unfolding findById_def by (induction docs) (auto split: if_splits)

lemma touch_all_fresh:
  "(\<forall>d \<in> set (v_docs s). d_id d \<in> set ids \<longrightarrow> (\<forall>t. clk t \<le> d_updatedAt d + 1000)) \<Longrightarrow>
     v_docs (foldl (touchIfStale clk) s ids) = v_docs s"
proof (induction ids arbitrary: s)
  case Nil
  then show ?case by simp
next
  case (Cons i ids)
  have one: "v_docs (touchIfStale clk s i) = v_docs s"
  proof (cases "findById (v_docs s) i")
    case None
    then show ?thesis by (simp add: touchIfStale_def)
  next
    case (Some d)
    from findById_SomeD[OF Some] have "d \<in> set (v_docs s)" "d_id d = i" by simp_all
    then have "\<forall>t. clk t \<le> d_updatedAt d + 1000" using Cons.prems by simp
    then have "clk (v_tick s) \<le> d_updatedAt d + 1000" by (rule spec)
    then have "\<not> clk (v_tick s) - d_updatedAt d > 1000" by simp
    then show ?thesis using Some by (simp add: touchIfStale_def newDate_def Let_def)
  qed
  have "\<forall>d \<in> set (v_docs (touchIfStale clk s i)). d_id d \<in> set ids
          \<longrightarrow> (\<forall>t. clk t \<le> d_updatedAt d + 1000)"
    using Cons.prems one by simp
  from Cons.IH[OF this] show ?case using one by simp
qed

lemma acyclic_by_ids:
  assumes "\<forall>d \<in> set docs. d_parentId d < Some (d_id d)"
  shows "acyclic (parentRel docs)"
proof -
  have "acyclic ((parentRel docs)\<inverse>)"
  proof (rule acyclicI_order[where f = "\<lambda>i. i"])
    fix a b assume "(a, b) \<in> (parentRel docs)\<inverse>"
    then have "(b, a) \<in> parentRel docs" by simp
    then obtain d where d: "d \<in> set docs" "d_parentId d = Some b" "d_id d = a"
      unfolding parentRel_iff by blast
    then show "b < a" using assms by fastforce
  qed
  then show ?thesis by (simp only: acyclic_converse)
qed

lemmas push_eval = syncWorkspaceToVfs_def skippedEntry_def ignoredEntry_def uploadFile_def
  ensureFolder_def dropWrongKind_def createNode_def save_def newDate_def findOne_def
  path_join_def posix_normalize_def isAbsolute_def startsWith_def

lemmas push_data = demoStore_def demoHost_def demoDocs_def demoRoot_def demoFile_def libStore_def
  libHost_def libFolder_def libChild_def slowClock_def

lemma storeOk_demoStore: "storeOk demoStore"
  unfolding storeOk_def
  by (intro conjI acyclic_by_ids) (simp_all add: push_data docKey_def validParent_def)

lemma storeOk_libStore: "storeOk libStore"
  unfolding storeOk_def
  by (intro conjI acyclic_by_ids) (simp_all add: push_data docKey_def validParent_def)

subsection \<open>Pushing twice\<close>

theorem push_twice_rewrites_updatedAt_counterexample:
  "map d_updatedAt (v_docs (projr
      (syncWorkspaceToVfs slowClock ''u1'' (Some (HDir demoHost)) ''/w/demo'' (Some 1) demoStore)))
     = [0, 15000]
   \<and> map d_updatedAt (v_docs (projr
      (syncWorkspaceToVfs slowClock ''u1'' (Some (HDir demoHost)) ''/w/demo'' (Some 1)
         (projr (syncWorkspaceToVfs slowClock ''u1'' (Some (HDir demoHost)) ''/w/demo'' (Some 1)
                   demoStore)))))
     = [0, 30000]"
  by (simp add: push_eval push_data Let_def)

text \<open>
  C3, amended. Let the store be well formed (unique ids; no two nodes of one owner with the
  same parent and name; the next fresh id above every id and parent id; no cycle of parent
  links), the parent argument valid and the names in each host directory distinct. When
  push has run on a host directory and runs again on the same directory, the second run
  does exactly this: for each host file it looks at, in order, it reads the clock and,
  when the reading is more than 1000 ms after the \<open>updatedAt\<close> of the file's node, saves
  the node with the time of the save as its new \<open>updatedAt\<close> (\<open>touchIfStale\<close>; a save that
  assigns the stored value again writes nothing). The nodes
  it looks at are file nodes of the owner. So the second run creates no node, deletes none
  and changes no field other than \<open>updatedAt\<close>; and when no reading of its clock is more
  than 1000 ms after the \<open>updatedAt\<close> of a node it looks at, it changes nothing at all.
\<close>

theorem push_twice_changes_only_updatedAt:
  assumes "storeOk s" and "validParent root s" and "wfHost entries"
    and "syncWorkspaceToVfs clk u (Some (HDir entries)) hostPath root s = Inr s1"
    and "syncWorkspaceToVfs clk' u (Some (HDir entries)) hostPath root s1 = Inr s2"
  shows "s2 = foldl (touchIfStale clk') s1 (visitedFiles u entries hostPath root hostPath (v_docs s1))
     \<and> (\<forall>i \<in> set (visitedFiles u entries hostPath root hostPath (v_docs s1)).
           \<exists>d \<in> set (v_docs s1). d_id d = i \<and> d_type d = File \<and> d_userId d = u)
     \<and> map stripTime (v_docs s2) = map stripTime (v_docs s1) \<and> v_nextId s2 = v_nextId s1
     \<and> ((\<forall>d \<in> set (v_docs s1).
            d_id d \<in> set (visitedFiles u entries hostPath root hostPath (v_docs s1))
            \<longrightarrow> (\<forall>t. clk' t \<le> d_updatedAt d + 1000))
          \<longrightarrow> v_docs s2 = v_docs s1)"
proof -
  from storeOk_ranked[OF assms(1)] obtain r where ok: "rankedStore r s" by blast
  have s1: "s1 = recursivelyScanHostAndUploadToVFS clk u entries hostPath root hostPath s"
    using assms(4) by (simp add: syncWorkspaceToVfs_def)
  have s2: "s2 = recursivelyScanHostAndUploadToVFS clk' u entries hostPath root hostPath s1"
    using assms(5) by (simp add: syncWorkspaceToVfs_def)
  have pr: "pushResult r u entries hostPath root hostPath s s1"
    unfolding s1 by (rule scan_main[OF ok assms(2,3)])
  then have ok1: "rankedStore r s1" and sy: "synced u entries hostPath root hostPath (v_docs s1)"
    by (simp_all add: pushResult_def)
  note di = ranked_ids[OF ok1]
  have a: "s2 = foldl (touchIfStale clk') s1 (visitedFiles u entries hostPath root hostPath (v_docs s1))"
    unfolding s2 by (rule scan_touch[OF di sy])
  have b: "\<forall>i \<in> set (visitedFiles u entries hostPath root hostPath (v_docs s1)).
           \<exists>d \<in> set (v_docs s1). d_id d = i \<and> d_type d = File \<and> d_userId d = u"
    using visited_files[OF sy] by blast
  have c: "map stripTime (v_docs s2) = map stripTime (v_docs s1) \<and> v_nextId s2 = v_nextId s1"
    unfolding s2 using scan_noop[OF di sy, of clk'] by blast
  have e: "v_docs s2 = v_docs s1"
    if "\<forall>d \<in> set (v_docs s1).
            d_id d \<in> set (visitedFiles u entries hostPath root hostPath (v_docs s1))
            \<longrightarrow> (\<forall>t. clk' t \<le> d_updatedAt d + 1000)"
    unfolding a using that by (rule touch_all_fresh)
  show ?thesis using a b c e by blast
qed

theorem push_twice_changes_only_updatedAt_witness:
  "storeOk demoStore \<and> wfHost demoHost
   \<and> syncWorkspaceToVfs slowClock ''u1'' (Some (HDir demoHost)) ''/w/demo'' (Some 1) demoStore
       = Inr \<lparr>v_docs = [demoRoot, demoFile\<lparr>d_updatedAt := 15000\<rparr>], v_nextId = 3, v_tick = 3\<rparr>
   \<and> syncWorkspaceToVfs slowClock ''u1'' (Some (HDir demoHost)) ''/w/demo'' (Some 1)
        \<lparr>v_docs = [demoRoot, demoFile\<lparr>d_updatedAt := 15000\<rparr>], v_nextId = 3, v_tick = 3\<rparr>
       = Inr \<lparr>v_docs = [demoRoot, demoFile\<lparr>d_updatedAt := 30000\<rparr>], v_nextId = 3, v_tick = 6\<rparr>
   \<and> \<lparr>v_docs = [demoRoot, demoFile\<lparr>d_updatedAt := 30000\<rparr>], v_nextId = 3, v_tick = 6\<rparr>
       = foldl (touchIfStale slowClock)
           \<lparr>v_docs = [demoRoot, demoFile\<lparr>d_updatedAt := 15000\<rparr>], v_nextId = 3, v_tick = 3\<rparr>
           (visitedFiles ''u1'' demoHost ''/w/demo'' (Some 1) ''/w/demo''
              [demoRoot, demoFile\<lparr>d_updatedAt := 15000\<rparr>])"
proof -
  have w: "wfHost demoHost" by (simp add: demoHost_def)
  have v: "validParent (Some 1) demoStore" by (simp add: validParent_def demoStore_def)
  have p1: "syncWorkspaceToVfs slowClock ''u1'' (Some (HDir demoHost)) ''/w/demo'' (Some 1) demoStore
       = Inr \<lparr>v_docs = [demoRoot, demoFile\<lparr>d_updatedAt := 15000\<rparr>], v_nextId = 3, v_tick = 3\<rparr>"
    by (simp add: push_eval push_data Let_def)
  have p2: "syncWorkspaceToVfs slowClock ''u1'' (Some (HDir demoHost)) ''/w/demo'' (Some 1)
        \<lparr>v_docs = [demoRoot, demoFile\<lparr>d_updatedAt := 15000\<rparr>], v_nextId = 3, v_tick = 3\<rparr>
       = Inr \<lparr>v_docs = [demoRoot, demoFile\<lparr>d_updatedAt := 30000\<rparr>], v_nextId = 3, v_tick = 6\<rparr>"
    by (simp add: push_eval push_data Let_def)
  from push_twice_changes_only_updatedAt[OF storeOk_demoStore v w p1 p2]
  show ?thesis using storeOk_demoStore w p1 p2 by simp
qed

subsection \<open>A node of the wrong kind\<close>

theorem push_wrong_kind_keeps_descendants_counterexample:
  "map (\<lambda>d. (d_id d, d_name d, d_type d, d_parentId d)) (v_docs (projr
      (syncWorkspaceToVfs slowClock ''u1'' (Some (HDir libHost)) ''/w/demo'' (Some 1) libStore)))
     = [(1, ''demo'', Folder, None), (3, ''x.js'', File, Some 2), (4, ''lib'', File, Some 1)]"
  by (simp add: push_eval push_data Let_def)

text \<open>
  C8, amended. Let the store be well formed (unique ids; no two nodes of one owner with the
  same parent and name; the next fresh id above every id and parent id; no cycle of parent
  links), the parent argument valid and the names in each host directory distinct. When a
  run of push on the entries of a host directory has among them a file or directory that
  it does not skip, while the store holds below the parent and under the entry's name a
  node of the other kind, then after the run no node has the id of that node; the node
  found below the parent under that name has the kind of the entry and an id that was
  fresh when the run started; and every descendant of the replaced node, at any depth, is
  still in the store as it was: the node is deleted, not its subtree.
\<close>

theorem push_replaces_wrong_kind_node:
  assumes ok: "storeOk s" and vp: "validParent p s" and wf: "wfHost entries"
    and mem: "(name, entry) \<in> set entries" and ns: "\<not> skippedEntry cur base name"
    and no: "entry \<noteq> HOther"
    and st: "findOne (v_docs s) u name p = Some stale"
    and mis: "d_type stale \<noteq> hostKind entry"
  shows "d_id stale \<notin> d_id ` set (v_docs (recursivelyScanHostAndUploadToVFS clk u entries cur p base s))
     \<and> (\<exists>fresh. findOne (v_docs (recursivelyScanHostAndUploadToVFS clk u entries cur p base s)) u name p
                   = Some fresh
          \<and> d_type fresh = hostKind entry \<and> v_nextId s \<le> d_id fresh)
     \<and> (\<forall>d \<in> set (v_docs s). (d_id stale, d_id d) \<in> (parentRel (v_docs s))\<^sup>+
           \<longrightarrow> d \<in> set (v_docs (recursivelyScanHostAndUploadToVFS clk u entries cur p base s)))"
proof -
  from storeOk_ranked[OF ok] obtain r where okr: "rankedStore r s" by blast
  define s' where "s' = recursivelyScanHostAndUploadToVFS clk u entries cur p base s"
  have pr: "pushResult r u entries cur p base s s'"
    unfolding s'_def by (rule scan_main[OF okr vp wf])
  then have ok': "rankedStore r s'" and org: "origin s s'" and sy: "synced u entries cur p base (v_docs s')"
    by (simp_all add: pushResult_def)
  from synced_mem[OF sy mem ns no] obtain f where
    f: "findOne (v_docs s') u name p = Some f" and ft: "d_type f = hostKind entry" by blast
  from findOne_SomeD[OF f] have fin: "f \<in> set (v_docs s')" and fk: "docKey f = (u, name, p)"
    by simp_all
  from findOne_SomeD[OF st] have sin: "stale \<in> set (v_docs s)" and sk: "docKey stale = (u, name, p)"
    by simp_all
  have fresh: "v_nextId s \<le> d_id f"
  proof (rule ccontr)
    assume n: "\<not> v_nextId s \<le> d_id f"
    from org fin n obtain d where d: "d \<in> set (v_docs s)" "d_id d = d_id f" "docKey d = docKey f"
      "d_type d = d_type f" unfolding origin_def by blast
    have "d = stale" using same_key_same_doc[OF okr d(1) sin] d(3) fk sk by simp
    then show False using d(4) ft mis by simp
  qed
  have gone: "d_id stale \<notin> d_id ` set (v_docs s')"
  proof
    assume "d_id stale \<in> d_id ` set (v_docs s')"
    then obtain x where x: "x \<in> set (v_docs s')" "d_id x = d_id stale" by (metis imageE)
    have lt: "d_id x < v_nextId s" using ranked_bound[OF okr sin] x(2) by simp
    from org x(1) lt obtain d where d: "d \<in> set (v_docs s)" "d_id d = d_id x" "docKey d = docKey x"
      "d_type d = d_type x" unfolding origin_def by (metis not_le)
    have ds: "d = stale" using same_id_same_doc[OF okr d(1) sin] d(2) x(2) by simp
    then have "docKey x = (u, name, p)" using d(3) sk by simp
    then have "x = f" using same_key_same_doc[OF ok' x(1) fin] fk by simp
    then show False using d(4) ds ft mis by simp
  qed
  from split_list[OF mem] obtain pre post where e: "entries = pre @ (name, entry) # post" by blast
  have stay: "d \<in> set (v_docs s')"
    if "d \<in> set (v_docs s)" "(d_id stale, d_id d) \<in> (parentRel (v_docs s))\<^sup>+" for d
    unfolding s'_def e
    by (rule descendants_stay[OF okr vp wf[unfolded e] ns no st mis that])
  show ?thesis using gone f ft fresh stay unfolding s'_def by blast
qed

theorem push_replaces_wrong_kind_node_witness:
  "storeOk libStore \<and> wfHost libHost
   \<and> findOne (v_docs libStore) ''u1'' ''lib'' (Some 1) = Some libFolder
   \<and> 2 \<notin> d_id ` set (v_docs (recursivelyScanHostAndUploadToVFS slowClock ''u1'' libHost ''/w/demo''
                               (Some 1) ''/w/demo'' libStore))
   \<and> libChild \<in> set (v_docs (recursivelyScanHostAndUploadToVFS slowClock ''u1'' libHost ''/w/demo''
                               (Some 1) ''/w/demo'' libStore))"
proof -
  have w: "wfHost libHost" by (simp add: libHost_def)
  have v: "validParent (Some 1) libStore" by (simp add: validParent_def libStore_def)
  have m: "(''lib'', HFile ''hello'') \<in> set libHost" by (simp add: libHost_def)
  have n: "\<not> skippedEntry ''/w/demo'' ''/w/demo'' ''lib''" by (simp add: push_eval)
  have f: "findOne (v_docs libStore) ''u1'' ''lib'' (Some 1) = Some libFolder"
    by (simp add: push_eval push_data)
  have k: "d_type libFolder \<noteq> hostKind (HFile ''hello'')" by (simp add: libFolder_def)
  have c: "libChild \<in> set (v_docs libStore)" by (simp add: libStore_def)
  have "(2, 3) \<in> parentRel (v_docs libStore)"
    unfolding parentRel_iff by (simp add: push_data)
  then have t: "(d_id libFolder, d_id libChild) \<in> (parentRel (v_docs libStore))\<^sup>+"
    by (simp add: libFolder_def libChild_def r_into_trancl)
  note th = push_replaces_wrong_kind_node[OF storeOk_libStore v w m n _ f k, of slowClock]
  have g: "d_id libFolder \<notin> d_id ` set (v_docs (recursivelyScanHostAndUploadToVFS slowClock ''u1'' libHost
      ''/w/demo'' (Some 1) ''/w/demo'' libStore))"
    using th by simp
  have s: "libChild \<in> set (v_docs (recursivelyScanHostAndUploadToVFS slowClock ''u1'' libHost
      ''/w/demo'' (Some 1) ''/w/demo'' libStore))"
    using th c t by blast
  show ?thesis using storeOk_libStore w f g s by (simp add: libFolder_def)
qed

end
